theory Spec2Isabelle
  imports Main "HOL-Library.Sublist"
begin

section \<open>Feed entries (feed.py, classes FeedEntry and ShortenedFeedEntry)\<close>

text \<open>
  Exceptions of the pipeline, as values. \<open>RequestException\<close> carries the text of the
  \<^verbatim>\<open>requests.RequestException\<close> the transport raised.
\<close>

datatype error =
    RequestException string
  | TypeError
  | KeyError
  | IndexError
  | AssertionError
  | UnboundLocalError

text \<open>
  \<^verbatim>\<open>FeedEntry\<close> has the fields \<open>title\<close> and \<open>long_url\<close>; the subclass
  \<^verbatim>\<open>ShortenedFeedEntry\<close> adds \<open>short_url\<close>. An object is of exactly one of the
  two classes, so the two classes are the two constructors.
\<close>

datatype entry =
    FeedEntry (title: string) (long_url: string)
  | ShortenedFeedEntry (title: string) (long_url: string) (short_url: string)

text \<open>\<^verbatim>\<open>other.__class__ is self.__class__\<close>, the first test of a dataclass's \<^verbatim>\<open>__eq__\<close>.\<close>

fun same_class :: "entry \<Rightarrow> entry \<Rightarrow> bool" where
  "same_class (FeedEntry _ _) (FeedEntry _ _) = True"
| "same_class (ShortenedFeedEntry _ _ _) (ShortenedFeedEntry _ _ _) = True"
| "same_class _ _ = False"

text \<open>
  The \<^verbatim>\<open>__eq__\<close> that \<^verbatim>\<open>dataclasses.dataclass\<close> generates for either class. The fields
  declared \<^verbatim>\<open>compare=True\<close> are \<open>long_url\<close> alone (\<open>title\<close> and \<open>short_url\<close> are
  \<^verbatim>\<open>compare=False\<close>), so the method compares the one-element tuples
  \<^verbatim>\<open>(self.long_url,) == (other.long_url,)\<close> when the classes are the same and
  answers \<^verbatim>\<open>NotImplemented\<close> otherwise; when both operands answer
  \<^verbatim>\<open>NotImplemented\<close>, \<^verbatim>\<open>==\<close> falls back to identity, which is false for two
  objects of different classes.
\<close>

definition entry_eq :: "entry \<Rightarrow> entry \<Rightarrow> bool" where
  "entry_eq a b = (same_class a b \<and> long_url a = long_url b)"

text \<open>
  \<^verbatim>\<open>hash(entry)\<close>. \<^verbatim>\<open>FeedEntry\<close> is declared with \<^verbatim>\<open>unsafe_hash=True\<close>: its hash
  is the hash of the tuple \<^verbatim>\<open>(long_url,)\<close>, here the parameter \<open>hash_tuple\<close> applied
  to \<open>long_url\<close>. \<^verbatim>\<open>ShortenedFeedEntry\<close> is declared with a plain
  \<^verbatim>\<open>@dataclasses.dataclass\<close> (\<^verbatim>\<open>eq=True\<close>, no \<^verbatim>\<open>unsafe_hash\<close>, not frozen), for
  which the decorator sets \<^verbatim>\<open>__hash__ = None\<close>: hashing such an object raises
  \<^verbatim>\<open>TypeError\<close>.
\<close>

fun entry_hash :: "(string \<Rightarrow> int) \<Rightarrow> entry \<Rightarrow> error + int" where
  "entry_hash hash_tuple (FeedEntry t u) = Inr (hash_tuple u)"
| "entry_hash hash_tuple (ShortenedFeedEntry t u s) = Inl TypeError"

text \<open>The property \<^verbatim>\<open>post_url\<close> of the two classes: a read of one field.\<close>

fun post_url :: "entry \<Rightarrow> string" where
  "post_url (FeedEntry t u) = u"
| "post_url (ShortenedFeedEntry t u s) = s"

section \<open>The deduplicator (Feed.\_dedupe\_entries)\<close>

text \<open>
  \<^verbatim>\<open>dict.fromkeys(entries)\<close> inserts the keys one by one into an insertion-ordered
  dictionary. Inserting a key hashes it (an unhashable key raises) and keeps the
  dictionary as it is when a stored key has the same hash and is the same object or
  compares equal; otherwise the key is appended. \<open>hash_of\<close> and \<open>eq_of\<close> are the
  \<^verbatim>\<open>__hash__\<close> and the identity-or-\<^verbatim>\<open>__eq__\<close> test of the keys.
\<close>

definition dict_insert_key ::
  "('k \<Rightarrow> error + int) \<Rightarrow> ('k \<Rightarrow> 'k \<Rightarrow> bool) \<Rightarrow> 'k list \<Rightarrow> 'k \<Rightarrow> error + 'k list" where
  "dict_insert_key hash_of eq_of keys k =
     (case hash_of k of
        Inl e \<Rightarrow> Inl e
      | Inr hk \<Rightarrow>
          if list_ex (\<lambda>k'. hash_of k' = Inr hk \<and> eq_of k' k) keys then Inr keys
          else Inr (keys @ [k]))"

fun dict_fromkeys ::
  "('k \<Rightarrow> error + int) \<Rightarrow> ('k \<Rightarrow> 'k \<Rightarrow> bool) \<Rightarrow> 'k list \<Rightarrow> 'k list \<Rightarrow> error + 'k list" where
  "dict_fromkeys hash_of eq_of keys [] = Inr keys"
| "dict_fromkeys hash_of eq_of keys (k # ks) =
     (case dict_insert_key hash_of eq_of keys k of
        Inl e \<Rightarrow> Inl e
      | Inr keys' \<Rightarrow> dict_fromkeys hash_of eq_of keys' ks)"

text \<open>
  \<^verbatim>\<open>_dedupe_entries(entries)\<close> on the values of the entries: the list of the
  dictionary's keys when that is shorter than the input, the input itself otherwise.
  (The two keyword arguments only feed the log line.) Two references to one object are
  two equal values here, and equal values of one class compare equal, so the identity
  test of the dictionary adds nothing to \<open>entry_eq\<close>.
\<close>

definition dedupe_entries :: "(string \<Rightarrow> int) \<Rightarrow> entry list \<Rightarrow> error + entry list" where
  "dedupe_entries hash_tuple entries =
     (case dict_fromkeys (entry_hash hash_tuple) entry_eq [] entries of
        Inl e \<Rightarrow> Inl e
      | Inr entries_deduped \<Rightarrow>
          (let num_removed = int (length entries) - int (length entries_deduped)
           in if num_removed > 0 then Inr entries_deduped else Inr entries))"

text \<open>
  The specification of deduplication the claims speak of: keep an entry exactly when no
  earlier entry of the list bears its \<open>long_url\<close>.
\<close>

fun first_by_url :: "string list \<Rightarrow> entry list \<Rightarrow> entry list" where
  "first_by_url seen [] = []"
| "first_by_url seen (e # es) =
     (if long_url e \<in> set seen then first_by_url seen es
      else e # first_by_url (long_url e # seen) es)"

section \<open>Configuration (config.py and the per-feed configuration)\<close>

text \<open>Constants that config.py defines and the claims speak of.\<close>

definition DEDUP_STRATEGY_DEFAULT :: string where
  "DEDUP_STRATEGY_DEFAULT = ''channel''"

definition MAX_POSTS_OF_NEW_FEED :: nat where
  "MAX_POSTS_OF_NEW_FEED = 3"

text \<open>
  Modelled from the spec: the constants \<^verbatim>\<open>READ_ATTEMPTS_MAX\<close>, \<^verbatim>\<open>URL_CACHE_TTL\<close>,
  \<^verbatim>\<open>NEW_FEED_POSTS_DEFAULT\<close> and \<^verbatim>\<open>NEW_FEED_POSTS_MAX\<close>, which feed.py reads from the
  module \<^verbatim>\<open>config\<close> and config.py does not define. They are the fields of a record
  that every function reading them takes as a parameter: a bound on the number of
  fetch attempts, a time to live in seconds, the default symbolic size class, and the
  lookup table from symbolic size class to integer cap (a number of entries).
\<close>

record config =
  READ_ATTEMPTS_MAX :: nat
  URL_CACHE_TTL :: nat
  NEW_FEED_POSTS_DEFAULT :: string
  NEW_FEED_POSTS_MAX :: "string \<rightharpoonup> nat"

text \<open>
  A whitelist or blacklist: the dictionary with the optional keys \<^verbatim>\<open>title\<close> and
  \<^verbatim>\<open>url\<close> (lists of patterns) and \<^verbatim>\<open>explain\<close>. An absent key is \<open>None\<close>; the
  dictionary is empty, hence falsy, when all three are absent.
\<close>

record searchlist =
  sl_title :: "string list option"
  sl_url :: "string list option"
  sl_explain :: "bool option"

text \<open>A substitution rule \<^verbatim>\<open>{pattern: ..., repl: ...}\<close> and the \<^verbatim>\<open>sub\<close> section.\<close>

record sub_rule =
  pattern :: string
  repl :: string

record sub_config =
  sub_title :: "sub_rule option"
  sub_url :: "sub_rule option"

text \<open>
  The \<^verbatim>\<open>format\<close> section: \<^verbatim>\<open>re\<close> maps a field name to an extraction pattern (empty
  when the key is absent), \<^verbatim>\<open>str\<close> maps a field name to a template (\<open>None\<close> when the
  key \<^verbatim>\<open>str\<close> itself is absent, which the code answers with \<^verbatim>\<open>KeyError\<close>). An
  absent or empty section is \<open>None\<close> in the feed's configuration.
\<close>

record format_config =
  format_re :: "string \<rightharpoonup> string"
  format_str :: "(string \<rightharpoonup> string) option"

text \<open>
  The configuration of one logical feed, \<^verbatim>\<open>config.INSTANCE['feeds'][channel][name]\<close>.
  An absent scalar key is \<open>None\<close>; an absent \<^verbatim>\<open>whitelist\<close>, \<^verbatim>\<open>blacklist\<close> or
  \<^verbatim>\<open>sub\<close> is the empty dictionary.
\<close>

record feed_config =
  cfg_whitelist :: searchlist
  cfg_blacklist :: searchlist
  cfg_https :: "bool option"
  cfg_sub :: sub_config
  cfg_format :: "format_config option"
  cfg_new :: "string option"
  cfg_dedup :: "string option"
  cfg_shorten :: "bool option"

section \<open>Collaborators: the store and the URL shortener\<close>

text \<open>
  The calls the pipeline makes to its collaborators, in the order it makes them: the
  three queries of the store (\<^verbatim>\<open>Database\<close>) and the batch call of the shortener.
\<close>

datatype call =
    IsNewFeed string string
  | SelectUnpostedForChannel string string "string list"
  | SelectUnpostedForChannelFeed string string "string list"
  | ShortenUrls "string list"

text \<open>The store, by the answers of its three queries.\<close>

record db =
  is_new_feed :: "string \<Rightarrow> string \<Rightarrow> bool"
  select_unposted_for_channel :: "string \<Rightarrow> string \<Rightarrow> string list \<Rightarrow> string list"
  select_unposted_for_channel_feed :: "string \<Rightarrow> string \<Rightarrow> string list \<Rightarrow> string list"

section \<open>The delivery history gate (Feed.unposted\_entries)\<close>

text \<open>
  \<^verbatim>\<open>unposted_entries\<close>, from \<open>entries\<close>, the entries \<^verbatim>\<open>self.entries\<close> holds. The
  result is the returned list or the exception raised, with the calls made to the
  store. \<^verbatim>\<open>assert dedup_strategy == 'feed'\<close> raises \<^verbatim>\<open>AssertionError\<close> before any
  query is made.
\<close>

definition unposted_entries ::
  "db \<Rightarrow> feed_config \<Rightarrow> string \<Rightarrow> string \<Rightarrow> entry list \<Rightarrow> (error + entry list) \<times> call list" where
  "unposted_entries store cfg channel name entries =
     (let long_urls = map long_url entries;
          dedup_strategy = (case cfg_dedup cfg of None \<Rightarrow> DEDUP_STRATEGY_DEFAULT | Some s \<Rightarrow> s)
      in if dedup_strategy = ''channel'' then
           (let long_urls' = select_unposted_for_channel store channel name long_urls
            in (Inr (filter (\<lambda>entry. long_url entry \<in> set long_urls') entries),
                [SelectUnpostedForChannel channel name long_urls]))
         else if dedup_strategy \<noteq> ''feed'' then (Inl AssertionError, [])
         else
           (let long_urls' = select_unposted_for_channel_feed store channel name long_urls
            in (Inr (filter (\<lambda>entry. long_url entry \<in> set long_urls') entries),
                [SelectUnpostedForChannelFeed channel name long_urls])))"

section \<open>The new-feed throttle and the shortening adapter (Feed.postable\_entries)\<close>

text \<open>
  The comprehension
  \<^verbatim>\<open>[ShortenedFeedEntry(e.title, e.long_url, short_urls[i]) for i, e in enumerate(entries)]\<close>,
  from index \<open>i\<close> on: \<^verbatim>\<open>short_urls[i]\<close> raises \<^verbatim>\<open>IndexError\<close> past the end of the
  shortener's answer.
\<close>

fun enumerate_shortened :: "nat \<Rightarrow> entry list \<Rightarrow> string list \<Rightarrow> error + entry list" where
  "enumerate_shortened i [] short_urls = Inr []"
| "enumerate_shortened i (e # es) short_urls =
     (if i < length short_urls then
        (case enumerate_shortened (Suc i) es short_urls of
           Inl err \<Rightarrow> Inl err
         | Inr rest \<Rightarrow> Inr (ShortenedFeedEntry (title e) (long_url e) (short_urls ! i) # rest))
      else Inl IndexError)"

text \<open>
  The block that filters the entries of a new feed: the symbol is the feed's \<^verbatim>\<open>new\<close> or the
  default, the cap is the table's entry for it (\<^verbatim>\<open>KeyError\<close> when it has none), and
  \<^verbatim>\<open>entries[:max_posts]\<close> keeps the first \<open>max_posts\<close> entries.
\<close>

definition new_feed_filter ::
  "config \<Rightarrow> db \<Rightarrow> feed_config \<Rightarrow> string \<Rightarrow> string \<Rightarrow> entry list \<Rightarrow> error + entry list" where
  "new_feed_filter c store cfg channel name entries =
     (if is_new_feed store channel name then
        (let max_posts = (case cfg_new cfg of None \<Rightarrow> NEW_FEED_POSTS_DEFAULT c | Some s \<Rightarrow> s)
         in case NEW_FEED_POSTS_MAX c max_posts of
              None \<Rightarrow> Inl KeyError
            | Some max_posts' \<Rightarrow> Inr (take max_posts' entries))
      else Inr entries)"

text \<open>
  The block that shortens the URLs. \<open>shorten_urls\<close> is \<^verbatim>\<open>self.url_shortener.shorten_urls\<close>, which
  answers with a list of short URLs or raises.
\<close>

definition shorten_entries ::
  "(string list \<Rightarrow> error + string list) \<Rightarrow> feed_config \<Rightarrow> entry list
     \<Rightarrow> (error + entry list) \<times> call list" where
  "shorten_entries shorten_urls cfg entries =
     (if entries \<noteq> [] \<and> (case cfg_shorten cfg of None \<Rightarrow> True | Some b \<Rightarrow> b) then
        (let long_urls = map long_url entries
         in case shorten_urls long_urls of
              Inl err \<Rightarrow> (Inl err, [ShortenUrls long_urls])
            | Inr short_urls \<Rightarrow> (enumerate_shortened 0 entries short_urls, [ShortenUrls long_urls]))
      else (Inr entries, []))"

text \<open>
  \<^verbatim>\<open>postable_entries\<close>, from \<open>unposted\<close>, the list \<^verbatim>\<open>self.unposted_entries\<close> returned: the
  throttle, then the shortening, with the calls made to the store and the shortener.
\<close>

definition postable_entries ::
  "config \<Rightarrow> db \<Rightarrow> (string list \<Rightarrow> error + string list) \<Rightarrow> feed_config \<Rightarrow> string \<Rightarrow> string
     \<Rightarrow> entry list \<Rightarrow> (error + entry list) \<times> call list" where
  "postable_entries c store shorten_urls cfg channel name unposted =
     (case new_feed_filter c store cfg channel name unposted of
        Inl err \<Rightarrow> (Inl err, [IsNewFeed channel name])
      | Inr entries \<Rightarrow>
          (let (result, calls) = shorten_entries shorten_urls cfg entries
           in (result, IsNewFeed channel name # calls)))"

section \<open>The fetcher (the retry loop of Feed.\_url\_entries)\<close>

text \<open>
  What the loop does to the outside world: a request (numbered by its attempt) and a
  sleep of so many seconds.
\<close>

datatype event = Request nat | Sleep nat

text \<open>
  The loop \<^verbatim>\<open>for num_attempt in range(1, config.READ_ATTEMPTS_MAX + 1)\<close> over the attempt
  numbers still to run, with the events so far. \<open>get n\<close> is the outcome of the
  \<^verbatim>\<open>try\<close> block of attempt \<open>n\<close> (\<^verbatim>\<open>requests.get\<close> followed by
  \<^verbatim>\<open>raise_for_status\<close>): the content of the response, or the exception raised.
  Only a \<^verbatim>\<open>requests.RequestException\<close> is caught; on the last attempt it is raised
  again, otherwise the loop sleeps \<^verbatim>\<open>2 ** num_attempt\<close> seconds and goes on. A loop
  that ends without \<^verbatim>\<open>break\<close> leaves \<^verbatim>\<open>response\<close> unbound, so
  \<^verbatim>\<open>response.content\<close> raises.
\<close>

fun read_url :: "(nat \<Rightarrow> error + string) \<Rightarrow> nat \<Rightarrow> nat list \<Rightarrow> event list
    \<Rightarrow> (error + string) \<times> event list" where
  "read_url get attempts_max [] tr = (Inl UnboundLocalError, tr)"
| "read_url get attempts_max (num_attempt # rest) tr =
     (case get num_attempt of
        Inr content \<Rightarrow> (Inr content, tr @ [Request num_attempt])
      | Inl exc \<Rightarrow>
          (case exc of
             RequestException msg \<Rightarrow>
               if num_attempt = attempts_max then (Inl exc, tr @ [Request num_attempt])
               else read_url get attempts_max rest
                      (tr @ [Request num_attempt, Sleep (2 ^ num_attempt)])
           | _ \<Rightarrow> (Inl exc, tr @ [Request num_attempt])))"

definition read_url_resiliently ::
  "config \<Rightarrow> (nat \<Rightarrow> error + string) \<Rightarrow> (error + string) \<times> event list" where
  "read_url_resiliently c get =
     read_url get (READ_ATTEMPTS_MAX c) [1 ..< READ_ATTEMPTS_MAX c + 1] []"

text \<open>
  For the statements about the fetcher: the events of attempts \<open>i\<close> to \<open>k\<close> when all
  but the last are followed by their sleep; whether an event is a request; and whether
  an attempt failed with a \<^verbatim>\<open>requests.RequestException\<close>.
\<close>

definition attempts_trace :: "nat \<Rightarrow> nat \<Rightarrow> event list" where
  "attempts_trace i k = concat (map (\<lambda>n. [Request n, Sleep (2 ^ n)]) [i ..< k]) @ [Request k]"

fun is_Request :: "event \<Rightarrow> bool" where
  "is_Request (Request n) = True"
| "is_Request (Sleep n) = False"

definition request_failed :: "error + string \<Rightarrow> bool" where
  "request_failed r = (case r of Inl (RequestException msg) \<Rightarrow> True | _ \<Rightarrow> False)"

section \<open>Objects in the store\<close>

text \<open>
  \<^verbatim>\<open>Feed._entries\<close> assigns to fields of entry objects and to elements of lists that
  other references may share, so the entries and the lists it works on live in a store:
  \<open>objs\<close> maps the address of an entry object to its value, \<open>lists\<close> maps the
  address of a list object to the addresses of its elements, and \<open>lim_obj\<close> and
  \<open>lim_list\<close> are the next free addresses.
\<close>

record heap =
  objs :: "nat \<Rightarrow> entry"
  lists :: "nat \<Rightarrow> nat list"
  lim_obj :: nat
  lim_list :: nat

definition empty_heap :: heap where
  "empty_heap = \<lparr>objs = (\<lambda>_. FeedEntry [] []), lists = (\<lambda>_. []), lim_obj = 0, lim_list = 0\<rparr>"

text \<open>Creating an entry object and creating a list object.\<close>

definition new_entry :: "entry \<Rightarrow> heap \<Rightarrow> nat \<times> heap" where
  "new_entry e H =
     (lim_obj H, H\<lparr>objs := (objs H)(lim_obj H := e), lim_obj := Suc (lim_obj H)\<rparr>)"

definition new_list :: "nat list \<Rightarrow> heap \<Rightarrow> nat \<times> heap" where
  "new_list as H =
     (lim_list H, H\<lparr>lists := (lists H)(lim_list H := as), lim_list := Suc (lim_list H)\<rparr>)"

text \<open>The assignments \<^verbatim>\<open>entry.title = t\<close> and \<^verbatim>\<open>entry.long_url = u\<close>.\<close>

fun set_title :: "string \<Rightarrow> entry \<Rightarrow> entry" where
  "set_title t' (FeedEntry t u) = FeedEntry t' u"
| "set_title t' (ShortenedFeedEntry t u s) = ShortenedFeedEntry t' u s"

fun set_long_url :: "string \<Rightarrow> entry \<Rightarrow> entry" where
  "set_long_url u' (FeedEntry t u) = FeedEntry t u'"
| "set_long_url u' (ShortenedFeedEntry t u s) = ShortenedFeedEntry t u' s"

text \<open>The values of the entries of the list at address \<open>l\<close>.\<close>

definition load :: "heap \<Rightarrow> nat \<Rightarrow> entry list" where
  "load H l = map (objs H) (lists H l)"

section \<open>Library functions the pipeline calls\<close>

text \<open>
  A match object of the module \<^verbatim>\<open>re\<close>, by what the code reads of it:
  \<^verbatim>\<open>match.span()\<close> and \<^verbatim>\<open>match.groupdict()\<close> (a group that took no part in the match
  has the value \<open>None\<close>).
\<close>

record re_match =
  span0 :: nat
  span1 :: nat
  groupdict :: "string \<rightharpoonup> string option"

text \<open>
  The library functions, as parameters: \<^verbatim>\<open>re.search(pattern, string)\<close>,
  \<^verbatim>\<open>re.sub(pattern, repl, string)\<close>, \<^verbatim>\<open>template.format_map(params)\<close> (which raises on
  a key the parameters lack), \<^verbatim>\<open>feedparser.parse(content)['entries']\<close> as the list of
  the pairs \<^verbatim>\<open>(e['title'], e['link'])\<close>, and the hash of the tuple \<^verbatim>\<open>(long_url,)\<close>.
\<close>

record lib =
  re_search :: "string \<Rightarrow> string \<Rightarrow> re_match option"
  re_sub :: "string \<Rightarrow> string \<Rightarrow> string \<Rightarrow> string"
  format_map :: "string \<Rightarrow> (string \<rightharpoonup> string option) \<Rightarrow> error + string"
  parse :: "string \<Rightarrow> (string \<times> string) list"
  hash_tuple :: "string \<Rightarrow> int"

text \<open>
  \<^verbatim>\<open>s.replace(old, new, 1)\<close>: the first occurrence of \<open>old\<close> in \<open>s\<close> replaced by
  \<open>new\<close>. \<^verbatim>\<open>s.startswith(p)\<close> is \<open>prefix p s\<close>.
\<close>

fun replace_first :: "string \<Rightarrow> string \<Rightarrow> string \<Rightarrow> string" where
  "replace_first old new [] = (if old = [] then new else [])"
| "replace_first old new (c # cs) =
     (if prefix old (c # cs) then new @ drop (length old) (c # cs)
      else c # replace_first old new cs)"

section \<open>Whitelist and blacklist matching (FeedEntry.is\_listed)\<close>

text \<open>\<^verbatim>\<open>searchlist.get(searchlist_key, [])\<close>, the truth value of the dictionary, and of \<^verbatim>\<open>explain\<close>.\<close>

definition searchlist_get :: "searchlist \<Rightarrow> string \<Rightarrow> string list" where
  "searchlist_get sl key =
     (case (if key = ''title'' then sl_title sl else if key = ''url'' then sl_url sl else None) of
        None \<Rightarrow> []
      | Some patterns \<Rightarrow> patterns)"

definition searchlist_truthy :: "searchlist \<Rightarrow> bool" where
  "searchlist_truthy sl = (sl_title sl \<noteq> None \<or> sl_url sl \<noteq> None \<or> sl_explain sl \<noteq> None)"

definition explain_set :: "searchlist \<Rightarrow> bool" where
  "explain_set sl = (sl_explain sl = Some True)"

text \<open>The inner loop of \<^verbatim>\<open>is_listed\<close>, over the patterns of one field.\<close>

fun search_patterns :: "lib \<Rightarrow> string list \<Rightarrow> string \<Rightarrow> re_match option" where
  "search_patterns L [] val = None"
| "search_patterns L (searchlisted_pattern # patterns) val =
     (case re_search L searchlisted_pattern val of
        Some m \<Rightarrow> Some m
      | None \<Rightarrow> search_patterns L patterns val)"

text \<open>The outer loop of \<^verbatim>\<open>is_listed\<close>, over the items of the dictionary of the two fields.\<close>

fun is_listed_items :: "lib \<Rightarrow> searchlist \<Rightarrow> (string \<times> string) list \<Rightarrow> (string \<times> re_match) option" where
  "is_listed_items L sl [] = None"
| "is_listed_items L sl ((searchlist_key, val) # items) =
     (case search_patterns L (searchlist_get sl searchlist_key) val of
        Some m \<Rightarrow> Some (searchlist_key, m)
      | None \<Rightarrow> is_listed_items L sl items)"

definition is_listed :: "lib \<Rightarrow> entry \<Rightarrow> searchlist \<Rightarrow> (string \<times> re_match) option" where
  "is_listed L e sl = is_listed_items L sl [(''title'', title e), (''url'', long_url e)]"

section \<open>The entry transform chain (Feed.\_entries)\<close>

text \<open>
  The title with the matched span wrapped in the marker:
  \<^verbatim>\<open>title[:span0] + '*' + title[span0:span1] + '*' + title[span1:]\<close>.
\<close>

definition explain_title :: "re_match \<Rightarrow> string \<Rightarrow> string" where
  "explain_title m t =
     take (span0 m) t @ ''*'' @ drop (span0 m) (take (span1 m) t) @ ''*'' @ drop (span1 m) t"

text \<open>
  The loop over the whitelisted entries: each entry is tested again, its title is
  assigned in place when \<^verbatim>\<open>explain\<close> is set and the match is on the title, and the
  entry is appended to the list \<^verbatim>\<open>whitelisted_entries\<close> (at address \<open>out\<close>).
\<close>

fun whitelist_loop :: "lib \<Rightarrow> searchlist \<Rightarrow> nat \<Rightarrow> nat list \<Rightarrow> heap \<Rightarrow> heap" where
  "whitelist_loop L wl out [] H = H"
| "whitelist_loop L wl out (a # as) H =
     (case is_listed L (objs H a) wl of
        None \<Rightarrow> whitelist_loop L wl out as H
      | Some (key, m) \<Rightarrow>
          (let H1 = (if explain_set wl \<and> key = ''title''
                     then H\<lparr>objs := (objs H)(a := set_title (explain_title m (title (objs H a))) (objs H a))\<rparr>
                     else H);
               H2 = H1\<lparr>lists := (lists H1)(out := lists H1 out @ [a])\<rparr>
           in whitelist_loop L wl out as H2))"

definition whitelist_stage :: "lib \<Rightarrow> searchlist \<Rightarrow> nat \<Rightarrow> heap \<Rightarrow> nat \<times> heap" where
  "whitelist_stage L wl entries H =
     (let (entries1, H1) =
            new_list (filter (\<lambda>a. is_listed L (objs H a) wl \<noteq> None) (lists H entries)) H;
          (whitelisted_entries, H2) = new_list [] H1;
          H3 = whitelist_loop L wl whitelisted_entries (lists H2 entries1) H2
      in (whitelisted_entries, H3))"

definition blacklist_stage :: "lib \<Rightarrow> searchlist \<Rightarrow> nat \<Rightarrow> heap \<Rightarrow> nat \<times> heap" where
  "blacklist_stage L bl entries H =
     new_list (filter (\<lambda>a. is_listed L (objs H a) bl = None) (lists H entries)) H"

text \<open>The loop that enforces HTTPS, assigning \<open>long_url\<close> in place.\<close>

fun https_loop :: "nat list \<Rightarrow> heap \<Rightarrow> heap" where
  "https_loop [] H = H"
| "https_loop (a # as) H =
     https_loop as
       (if prefix ''http://'' (long_url (objs H a))
        then H\<lparr>objs := (objs H)(a := set_long_url
                 (replace_first ''http://'' ''https://'' (long_url (objs H a))) (objs H a))\<rparr>
        else H)"

text \<open>
  The substitution: the lambda \<^verbatim>\<open>re_sub\<close> of the source, and the comprehension that
  builds a new \<^verbatim>\<open>FeedEntry\<close> for every entry.
\<close>

definition re_sub_rule :: "lib \<Rightarrow> string \<Rightarrow> sub_rule option \<Rightarrow> string" where
  "re_sub_rule L v r =
     (case r of None \<Rightarrow> v | Some rule \<Rightarrow> re_sub L (pattern rule) (repl rule) v)"

fun sub_loop :: "lib \<Rightarrow> sub_config \<Rightarrow> nat list \<Rightarrow> heap \<Rightarrow> nat list \<times> heap" where
  "sub_loop L sub [] H = ([], H)"
| "sub_loop L sub (a # as) H =
     (let e = objs H a;
          (a', H1) = new_entry (FeedEntry (re_sub_rule L (title e) (sub_title sub))
                                          (re_sub_rule L (long_url e) (sub_url sub))) H;
          (as', H2) = sub_loop L sub as H1
      in (a' # as', H2))"

definition sub_stage :: "lib \<Rightarrow> sub_config \<Rightarrow> nat \<Rightarrow> heap \<Rightarrow> nat \<times> heap" where
  "sub_stage L sub entries H =
     (let (as', H1) = sub_loop L sub (lists H entries) H in new_list as' H1)"

definition sub_truthy :: "sub_config \<Rightarrow> bool" where
  "sub_truthy sub = (sub_title sub \<noteq> None \<or> sub_url sub \<noteq> None)"

text \<open>
  The stages up to and including the substitution, from the list at address \<open>entries\<close>
  (the list \<^verbatim>\<open>_url_entries\<close> returned): the address of the list the variable
  \<^verbatim>\<open>entries\<close> holds after the substitution, and the store.
\<close>

definition substituted_entries :: "lib \<Rightarrow> feed_config \<Rightarrow> nat \<Rightarrow> heap \<Rightarrow> nat \<times> heap" where
  "substituted_entries L cfg entries H =
     (let (entries1, H1) =
            (if searchlist_truthy (cfg_whitelist cfg)
             then whitelist_stage L (cfg_whitelist cfg) entries H else (entries, H));
          (entries2, H2) =
            (if searchlist_truthy (cfg_blacklist cfg)
             then blacklist_stage L (cfg_blacklist cfg) entries1 H1 else (entries1, H1));
          H3 = (if cfg_https cfg = Some True then https_loop (lists H2 entries2) H2 else H2)
      in if sub_truthy (cfg_sub cfg) then sub_stage L (cfg_sub cfg) entries2 H3
         else (entries2, H3))"

text \<open>
  The format stage. The parameters start as \<^verbatim>\<open>{'title': ..., 'url': ...}\<close> and are
  overlaid with the named groups each extraction pattern finds in its field.
\<close>

fun extract_groups :: "lib \<Rightarrow> (string \<rightharpoonup> string) \<Rightarrow> (string \<times> string) list
    \<Rightarrow> (string \<rightharpoonup> string option) \<Rightarrow> (string \<rightharpoonup> string option)" where
  "extract_groups L fre [] params = params"
| "extract_groups L fre ((key, val) # items) params =
     (case fre key of
        None \<Rightarrow> extract_groups L fre items params
      | Some pat \<Rightarrow>
          (case re_search L pat val of
             None \<Rightarrow> extract_groups L fre items params
           | Some m \<Rightarrow> extract_groups L fre items (params ++ groupdict m)))"

definition format_entry :: "lib \<Rightarrow> (string \<rightharpoonup> string) \<Rightarrow> (string \<rightharpoonup> string) \<Rightarrow> entry \<Rightarrow> error + entry" where
  "format_entry L fre fstr e =
     (let items = [(''title'', title e), (''url'', long_url e)];
          params = extract_groups L fre items
                     [''title'' \<mapsto> Some (title e), ''url'' \<mapsto> Some (long_url e)]
      in case format_map L (case fstr ''title'' of None \<Rightarrow> ''{title}'' | Some t \<Rightarrow> t) params of
           Inl err \<Rightarrow> Inl err
         | Inr t' \<Rightarrow>
             (case format_map L (case fstr ''url'' of None \<Rightarrow> ''{url}'' | Some t \<Rightarrow> t) params of
                Inl err \<Rightarrow> Inl err
              | Inr u' \<Rightarrow> Inr (FeedEntry t' u')))"

text \<open>
  The loop \<^verbatim>\<open>for index, entry in enumerate(entries.copy())\<close>: the new entry is stored
  into the list \<^verbatim>\<open>entries\<close> itself, at \<open>index\<close>.
\<close>

fun format_loop :: "lib \<Rightarrow> (string \<rightharpoonup> string) \<Rightarrow> (string \<rightharpoonup> string) \<Rightarrow> nat \<Rightarrow> nat
    \<Rightarrow> nat list \<Rightarrow> heap \<Rightarrow> error option \<times> heap" where
  "format_loop L fre fstr entries index [] H = (None, H)"
| "format_loop L fre fstr entries index (a # as) H =
     (case format_entry L fre fstr (objs H a) of
        Inl err \<Rightarrow> (Some err, H)
      | Inr e' \<Rightarrow>
          (let (a', H1) = new_entry e' H;
               H2 = H1\<lparr>lists := (lists H1)(entries := (lists H1 entries)[index := a'])\<rparr>
           in format_loop L fre fstr entries (Suc index) as H2))"

definition format_stage :: "lib \<Rightarrow> format_config \<Rightarrow> nat \<Rightarrow> heap \<Rightarrow> error option \<times> heap" where
  "format_stage L fc entries H =
     (case format_str fc of
        None \<Rightarrow> (Some KeyError, H)
      | Some fstr \<Rightarrow>
          (let (copy, H1) = new_list (lists H entries) H
           in format_loop L (format_re fc) fstr entries 0 (lists H1 copy) H1))"

text \<open>
  \<^verbatim>\<open>_dedupe_entries\<close> on a list in the store: the keys of the dictionary are the
  entry objects, hashed and compared by their values in the store; the result is a
  new list when entries were removed and the list passed in otherwise.
\<close>

definition dedupe_entries_at :: "lib \<Rightarrow> nat \<Rightarrow> heap \<Rightarrow> (error + nat) \<times> heap" where
  "dedupe_entries_at L entries H =
     (case dict_fromkeys (\<lambda>a. entry_hash (hash_tuple L) (objs H a))
             (\<lambda>a b. a = b \<or> entry_eq (objs H a) (objs H b)) [] (lists H entries) of
        Inl err \<Rightarrow> (Inl err, H)
      | Inr keys \<Rightarrow>
          (let (entries_deduped, H1) = new_list keys H;
               num_removed = int (length (lists H entries)) - int (length keys)
           in if num_removed > 0 then (Inr entries_deduped, H1) else (Inr entries, H1)))"

text \<open>
  \<^verbatim>\<open>_entries\<close> after the retrieval of the list at address \<open>entries\<close>: the stages up to
  the substitution, the format stage, and the second deduplication.
\<close>

definition transform_entries :: "lib \<Rightarrow> feed_config \<Rightarrow> nat \<Rightarrow> heap \<Rightarrow> (error + nat) \<times> heap" where
  "transform_entries L cfg entries H =
     (let (entries4, H4) = substituted_entries L cfg entries H
      in case cfg_format cfg of
           None \<Rightarrow> dedupe_entries_at L entries4 H4
         | Some fc \<Rightarrow>
             (case format_stage L fc entries4 H4 of
                (Some err, H5) \<Rightarrow> (Inl err, H5)
              | (None, H5) \<Rightarrow> dedupe_entries_at L entries4 H5))"

section \<open>The fetch cache (Feed.\_url\_entries under cachetools.func.ttl\_cache)\<close>

text \<open>
  The state shared by all feeds: the store of objects, the cache (for a URL, the time
  its entry expires and the address of the cached list), the clock in seconds, and
  the requests and sleeps so far, each with its URL.
\<close>

record world =
  heap :: heap
  cache :: "string \<rightharpoonup> nat \<times> nat"
  clock :: nat
  events :: "(string \<times> event) list"

definition empty_world :: world where
  "empty_world = \<lparr>heap = empty_heap, cache = Map.empty, clock = 0, events = []\<rparr>"

text \<open>The seconds slept in a run of the fetcher.\<close>

fun slept :: "event list \<Rightarrow> nat" where
  "slept [] = 0"
| "slept (Request n # tr) = slept tr"
| "slept (Sleep n # tr) = n + slept tr"

text \<open>The comprehension that builds a \<^verbatim>\<open>FeedEntry\<close> for every parsed entry.\<close>

fun parsed_entries :: "(string \<times> string) list \<Rightarrow> heap \<Rightarrow> nat list \<times> heap" where
  "parsed_entries [] H = ([], H)"
| "parsed_entries ((t, link) # es) H =
     (let (a, H1) = new_entry (FeedEntry t link) H;
          (as, H2) = parsed_entries es H1
      in (a # as, H2))"

text \<open>
  The body of \<^verbatim>\<open>_url_entries\<close>, run on a cache miss: fetch (\<open>get\<close> is the
  transport's outcome per attempt for this URL), parse, deduplicate.
\<close>

definition url_entries_uncached ::
  "config \<Rightarrow> lib \<Rightarrow> (nat \<Rightarrow> error + string) \<Rightarrow> string \<Rightarrow> world \<Rightarrow> (error + nat) \<times> world" where
  "url_entries_uncached c L get url W =
     (let (response, tr) = read_url_resiliently c get;
          W1 = W\<lparr>events := events W @ map (Pair url) tr, clock := clock W + slept tr\<rparr>
      in case response of
           Inl exc \<Rightarrow> (Inl exc, W1)
         | Inr content \<Rightarrow>
             (let (as, H1) = parsed_entries (parse L content) (heap W1);
                  (entries, H2) = new_list as H1;
                  (deduped, H3) = dedupe_entries_at L entries H2
              in (deduped, W1\<lparr>heap := H3\<rparr>)))"

text \<open>
  \<^verbatim>\<open>_url_entries\<close> as the decorator leaves it: a cached list that has not expired is
  returned as it is (the same list object); otherwise the body runs and its result,
  unless it is an exception, is cached for \<^verbatim>\<open>URL_CACHE_TTL\<close> seconds.
\<close>

definition url_entries ::
  "config \<Rightarrow> lib \<Rightarrow> (string \<Rightarrow> nat \<Rightarrow> error + string) \<Rightarrow> string \<Rightarrow> world \<Rightarrow> (error + nat) \<times> world" where
  "url_entries c L transport url W =
     (case (case cache W url of
              None \<Rightarrow> None
            | Some (expires, entries) \<Rightarrow> if clock W < expires then Some entries else None) of
        Some entries \<Rightarrow> (Inr entries, W)
      | None \<Rightarrow>
          (case url_entries_uncached c L (transport url) url W of
             (Inl exc, W1) \<Rightarrow> (Inl exc, W1)
           | (Inr entries, W1) \<Rightarrow>
               (Inr entries,
                W1\<lparr>cache := (cache W1)(url \<mapsto> (clock W1 + URL_CACHE_TTL c, entries))\<rparr>)))"

text \<open>
  \<^verbatim>\<open>Feed._entries\<close>, as \<^verbatim>\<open>__post_init__\<close> calls it for the feed with configuration
  \<open>cfg\<close> and URL \<open>url\<close>: the list from the cache, then the transform chain on it.
\<close>

definition Feed_entries ::
  "config \<Rightarrow> lib \<Rightarrow> (string \<Rightarrow> nat \<Rightarrow> error + string) \<Rightarrow> feed_config \<Rightarrow> string \<Rightarrow> world
     \<Rightarrow> (error + nat) \<times> world" where
  "Feed_entries c L transport cfg url W =
     (case url_entries c L transport url W of
        (Inl exc, W1) \<Rightarrow> (Inl exc, W1)
      | (Inr entries, W1) \<Rightarrow>
          (let (result, H) = transform_entries L cfg entries (heap W1)
           in (result, W1\<lparr>heap := H\<rparr>)))"

text \<open>The property \<^verbatim>\<open>post_url\<close> read on the object at address \<open>a\<close>: its value, and the store after the read.\<close>

definition read_post_url :: "nat \<Rightarrow> heap \<Rightarrow> string \<times> heap" where
  "read_post_url a H = (post_url (objs H a), H)"

section \<open>Notions for the statements about the transform chain\<close>

text \<open>
  What the whitelist stage does to the value of an entry it keeps: the title is
  annotated when \<^verbatim>\<open>explain\<close> is set and the match is on the title; and whether the
  entry at an address is listed.
\<close>

definition explained :: "lib \<Rightarrow> searchlist \<Rightarrow> entry \<Rightarrow> entry" where
  "explained L wl e =
     (case is_listed L e wl of
        None \<Rightarrow> e
      | Some (key, m) \<Rightarrow>
          if explain_set wl \<and> key = ''title'' then set_title (explain_title m (title e)) e else e)"

definition listed_at :: "lib \<Rightarrow> searchlist \<Rightarrow> heap \<Rightarrow> nat \<Rightarrow> bool" where
  "listed_at L wl H a = (is_listed L (objs H a) wl \<noteq> None)"

text \<open>
  HTTPS enforcement on a URL, in the spec's words: a URL that starts with the literal
  scheme \<^verbatim>\<open>http://\<close> has its first occurrence of it replaced by \<^verbatim>\<open>https://\<close>, any
  other URL is left as it is. \<open>https_entry\<close> and \<open>sub_entry\<close> are what the HTTPS
  stage and the substitution stage make of the value of one entry.
\<close>

definition enforce_https :: "string \<Rightarrow> string" where
  "enforce_https u =
     (if prefix ''http://'' u then replace_first ''http://'' ''https://'' u else u)"

definition https_entry :: "entry \<Rightarrow> entry" where
  "https_entry e = set_long_url (enforce_https (long_url e)) e"

definition sub_entry :: "lib \<Rightarrow> sub_config \<Rightarrow> entry \<Rightarrow> entry" where
  "sub_entry L sub e =
     FeedEntry (re_sub_rule L (title e) (sub_title sub)) (re_sub_rule L (long_url e) (sub_url sub))"

text \<open>
  Whitelist and blacklist matching in the spec's words, from the fields of the
  configuration and the regex search alone. \<open>patterns_of\<close> is the pattern list of a
  field (empty when the key is absent); \<open>first_match\<close> is the match of the first
  pattern of a list that matches a value; an entry is \<open>listed\<close> when some title
  pattern matches its title or some url pattern matches its \<open>long_url\<close>;
  \<open>annotated\<close> is the entry with the span of the first title match wrapped in
  \<^verbatim>\<open>*\<close> when \<^verbatim>\<open>explain\<close> is true; a section is \<open>configured\<close> when it has a key;
  and an entry passes the filters when it is listed by the whitelist, if one is
  configured, and, as the whitelist stage has left it, not listed by the blacklist, if
  one is configured.
\<close>

definition patterns_of :: "string list option \<Rightarrow> string list" where
  "patterns_of ps = (case ps of None \<Rightarrow> [] | Some l \<Rightarrow> l)"

definition first_match :: "lib \<Rightarrow> string list \<Rightarrow> string \<Rightarrow> re_match option" where
  "first_match L ps v =
     (case find (\<lambda>p. re_search L p v \<noteq> None) ps of
        None \<Rightarrow> None
      | Some p \<Rightarrow> re_search L p v)"

definition listed :: "lib \<Rightarrow> searchlist \<Rightarrow> entry \<Rightarrow> bool" where
  "listed L sl e =
     ((\<exists>p \<in> set (patterns_of (sl_title sl)). re_search L p (title e) \<noteq> None)
      \<or> (\<exists>p \<in> set (patterns_of (sl_url sl)). re_search L p (long_url e) \<noteq> None))"

definition annotated :: "lib \<Rightarrow> searchlist \<Rightarrow> entry \<Rightarrow> entry" where
  "annotated L wl e =
     (if sl_explain wl = Some True then
        (case first_match L (patterns_of (sl_title wl)) (title e) of
           None \<Rightarrow> e
         | Some m \<Rightarrow>
             set_title (take (span0 m) (title e) @ ''*''
                        @ drop (span0 m) (take (span1 m) (title e)) @ ''*''
                        @ drop (span1 m) (title e)) e)
      else e)"

definition configured :: "searchlist \<Rightarrow> bool" where
  "configured sl = (sl_title sl \<noteq> None \<or> sl_url sl \<noteq> None \<or> sl_explain sl \<noteq> None)"

definition passes_filters :: "lib \<Rightarrow> feed_config \<Rightarrow> entry \<Rightarrow> bool" where
  "passes_filters L cfg e =
     ((\<not> configured (cfg_whitelist cfg) \<or> listed L (cfg_whitelist cfg) e)
      \<and> (\<not> configured (cfg_blacklist cfg)
         \<or> \<not> listed L (cfg_blacklist cfg)
              (if configured (cfg_whitelist cfg) then annotated L (cfg_whitelist cfg) e else e)))"

section \<open>Example inputs\<close>

text \<open>
  Concrete inputs for the examples below. In \<open>ex_lib\<close> the pattern \<^verbatim>\<open>foo\<close> matches
  the title \<^verbatim>\<open>hello foo bar\<close> at the span (6, 9) and nothing else matches, a
  substitution changes nothing (its pattern matches nowhere), a template is rendered
  as itself, every feed document parses to one entry, and a string hashes to its length.
  \<open>ex_heap\<close> holds that entry at address 0 and the list of it at address 0.
\<close>

definition ex_lib :: lib where
  "ex_lib =
     \<lparr>re_search = (\<lambda>p s. if p = ''foo'' \<and> s = ''hello foo bar''
                           then Some \<lparr>span0 = 6, span1 = 9, groupdict = Map.empty\<rparr> else None),
      re_sub = (\<lambda>p r s. s),
      format_map = (\<lambda>t ps. Inr t),
      parse = (\<lambda>content. [(''hello foo bar'', ''http://x.test/1'')]),
      hash_tuple = (\<lambda>u. int (length u))\<rparr>"

definition ex_heap :: heap where
  "ex_heap = \<lparr>objs = (\<lambda>_. FeedEntry ''hello foo bar'' ''http://x.test/1''),
              lists = (\<lambda>_. [0]), lim_obj = 1, lim_list = 1\<rparr>"

definition ex_whitelist :: searchlist where
  "ex_whitelist = \<lparr>sl_title = Some [''foo''], sl_url = None, sl_explain = Some True\<rparr>"

definition ex_config :: config where
  "ex_config =
     \<lparr>READ_ATTEMPTS_MAX = 3, URL_CACHE_TTL = 3600, NEW_FEED_POSTS_DEFAULT = ''some'',
      NEW_FEED_POSTS_MAX = [''none'' \<mapsto> 0, ''some'' \<mapsto> 3]\<rparr>"

definition no_searchlist :: searchlist where
  "no_searchlist = \<lparr>sl_title = None, sl_url = None, sl_explain = None\<rparr>"

text \<open>A feed with \<^verbatim>\<open>https: true\<close> and nothing else, and a feed with that and the whitelist above.\<close>

definition ex_feed_https :: feed_config where
  "ex_feed_https =
     \<lparr>cfg_whitelist = no_searchlist, cfg_blacklist = no_searchlist,
      cfg_https = Some True, cfg_sub = \<lparr>sub_title = None, sub_url = None\<rparr>,
      cfg_format = None, cfg_new = None, cfg_dedup = None, cfg_shorten = None\<rparr>"

definition ex_feed_explain :: feed_config where
  "ex_feed_explain = ex_feed_https\<lparr>cfg_whitelist := ex_whitelist\<rparr>"

definition ex_url :: string where
  "ex_url = ''http://feeds.test/rss''"

definition ex_transport :: "string \<Rightarrow> nat \<Rightarrow> error + string" where
  "ex_transport url num_attempt = Inr ''<rss/>''"

text \<open>
  A feed with \<^verbatim>\<open>https: true\<close> and a substitution rule for the url whose pattern
  matches none of the URLs of the examples, and a store whose one entry has a
  \<open>long_url\<close> with the scheme \<^verbatim>\<open>ftp\<close>.
\<close>

definition ex_rule :: sub_rule where
  "ex_rule = \<lparr>pattern = ''^http://old[.]test/'', repl = ''http://new.test/''\<rparr>"

definition ex_feed_sub :: feed_config where
  "ex_feed_sub = ex_feed_https\<lparr>cfg_sub := \<lparr>sub_title = None, sub_url = Some ex_rule\<rparr>\<rparr>"

definition ex_heap_ftp :: heap where
  "ex_heap_ftp = \<lparr>objs = (\<lambda>_. FeedEntry ''Title One'' ''ftp://x.test/1''),
                  lists = (\<lambda>_. [0]), lim_obj = 1, lim_list = 1\<rparr>"

section \<open>Properties of the deduplicator\<close>

lemma dict_insert_key_FeedEntry:
  assumes "list_all is_FeedEntry keys" "is_FeedEntry k"
  shows "dict_insert_key (entry_hash h) entry_eq keys k =
     Inr (if long_url k \<in> set (map long_url keys) then keys else keys @ [k])"
proof -
  obtain t u where k: "k = FeedEntry t u" using assms(2) by (cases k) auto
  have "list_ex (\<lambda>k'. entry_hash h k' = Inr (h u) \<and> entry_eq k' k) keys
        \<longleftrightarrow> u \<in> set (map long_url keys)"
    using assms(1)
    by (induction keys) (auto simp: k entry_eq_def is_FeedEntry_def)
  then show ?thesis by (simp add: dict_insert_key_def k)
qed

lemma first_by_url_seen_cong:
  "set s = set s' \<Longrightarrow> first_by_url s es = first_by_url s' es"
proof (induction es arbitrary: s s')
  case Nil then show ?case by simp
next
  case (Cons e es)
  have "first_by_url (long_url e # s) es = first_by_url (long_url e # s') es"
    by (rule Cons.IH) (simp add: Cons.prems)
  moreover have "first_by_url s es = first_by_url s' es"
    by (rule Cons.IH) (rule Cons.prems)
  ultimately show ?case using Cons.prems by simp
qed

lemma dict_fromkeys_FeedEntry:
  "list_all is_FeedEntry keys \<Longrightarrow> list_all is_FeedEntry es \<Longrightarrow>
   dict_fromkeys (entry_hash h) entry_eq keys es =
     Inr (keys @ first_by_url (map long_url keys) es)"
proof (induction es arbitrary: keys)
  case Nil then show ?case by simp
next
  case (Cons e es)
  show ?case
  proof (cases "long_url e \<in> set (map long_url keys)")
    case True
    with Cons show ?thesis by (simp add: dict_insert_key_FeedEntry)
  next
    case False
    have "first_by_url (map long_url (keys @ [e])) es =
          first_by_url (long_url e # map long_url keys) es"
      by (rule first_by_url_seen_cong) auto
    with False Cons show ?thesis by (simp add: dict_insert_key_FeedEntry)
  qed
qed

lemma first_by_url_subseq: "subseq (first_by_url s es) es"
  by (induction es arbitrary: s) auto

lemma first_by_url_urls:
  "set (map long_url (first_by_url s es)) = set (map long_url es) - set s"
  by (induction es arbitrary: s) auto

lemma first_by_url_notin: "e \<in> set (first_by_url s es) \<Longrightarrow> long_url e \<notin> set s"
  using first_by_url_urls[of s es] by auto

lemma first_by_url_distinct: "distinct (map long_url (first_by_url s es))"
  by (induction es arbitrary: s) (auto dest: first_by_url_notin)

lemma first_by_url_find:
  "e \<in> set (first_by_url s es) \<Longrightarrow> find (\<lambda>x. long_url x = long_url e) es = Some e"
proof (induction es arbitrary: s)
  case Nil then show ?case by simp
next
  case (Cons x xs)
  show ?case
  proof (cases "long_url x \<in> set s")
    case True
    with Cons.prems have e: "e \<in> set (first_by_url s xs)" by simp
    then have "long_url e \<notin> set s" by (rule first_by_url_notin)
    with True have "long_url x \<noteq> long_url e" by auto
    with Cons.IH[OF e] show ?thesis by simp
  next
    case False
    with Cons.prems have "e = x \<or> e \<in> set (first_by_url (long_url x # s) xs)" by simp
    then show ?thesis
    proof
      assume "e = x" then show ?thesis by simp
    next
      assume e: "e \<in> set (first_by_url (long_url x # s) xs)"
      then have "long_url e \<notin> set (long_url x # s)" by (rule first_by_url_notin)
      then have "long_url x \<noteq> long_url e" by auto
      with Cons.IH[OF e] show ?thesis by simp
    qed
  qed
qed

lemma first_by_url_length: "length (first_by_url s es) \<le> length es"
  by (induction es arbitrary: s) (auto intro: le_SucI)

lemma first_by_url_same_length:
  "length (first_by_url s es) = length es \<Longrightarrow> first_by_url s es = es"
  using first_by_url_subseq[of s es] by (simp add: subseq_same_length)

lemma dedupe_entries_FeedEntry:
  assumes "list_all is_FeedEntry entries"
  shows "dedupe_entries h entries = Inr (first_by_url [] entries)"
proof -
  have fk: "dict_fromkeys (entry_hash h) entry_eq [] entries = Inr (first_by_url [] entries)"
    using dict_fromkeys_FeedEntry[of "[]" entries h] assms by simp
  show ?thesis
  proof (cases "length (first_by_url [] entries) = length entries")
    case True
    then show ?thesis
      using first_by_url_same_length[OF True] by (simp add: dedupe_entries_def fk)
  next
    case False
    with first_by_url_length[of "[]" entries]
    have "length (first_by_url [] entries) < length entries" by simp
    then show ?thesis by (simp add: dedupe_entries_def fk)
  qed
qed

text \<open>
  Claim C1. For every list of \<^verbatim>\<open>FeedEntry\<close> objects (the argument type of
  \<^verbatim>\<open>Feed._dedupe_entries\<close>, and what both call sites pass), the deduplicator returns,
  whatever the hash function, the list \<open>first_by_url [] entries\<close>. That list is a
  subsequence of the input in the input's order; its \<open>long_url\<close>s are pairwise
  distinct and are exactly the \<open>long_url\<close>s of the input; and each entry it keeps is
  the first entry of the input bearing that \<open>long_url\<close>, so every later entry with an
  equal \<open>long_url\<close> is dropped, whatever its title. In particular, for two entries with
  equal \<open>long_url\<close> and any titles, the result is the first of them alone.
\<close>

theorem dedupe_entries_first_occurrence:
  assumes "list_all is_FeedEntry entries"
  shows "dedupe_entries h entries = Inr (first_by_url [] entries)
       \<and> subseq (first_by_url [] entries) entries
       \<and> distinct (map long_url (first_by_url [] entries))
       \<and> set (map long_url (first_by_url [] entries)) = set (map long_url entries)
       \<and> (\<forall>e \<in> set (first_by_url [] entries).
             find (\<lambda>x. long_url x = long_url e) entries = Some e)
       \<and> dedupe_entries h [FeedEntry t1 u, FeedEntry t2 u] = Inr [FeedEntry t1 u]"
proof -
  have d: "dedupe_entries h entries = Inr (first_by_url [] entries)"
    by (rule dedupe_entries_FeedEntry[OF assms])
  have two: "dedupe_entries h [FeedEntry t1 u, FeedEntry t2 u] = Inr [FeedEntry t1 u]"
    using dedupe_entries_FeedEntry[of "[FeedEntry t1 u, FeedEntry t2 u]" h] by simp
  show ?thesis
    using d two first_by_url_subseq[of "[]" entries] first_by_url_distinct[of "[]" entries]
      first_by_url_urls[of "[]" entries] first_by_url_find[of _ "[]" entries]
    by simp
qed

theorem dedupe_entries_first_occurrence_witness:
  "list_all is_FeedEntry
     [FeedEntry ''A'' ''u1'', FeedEntry ''B'' ''u2'', FeedEntry ''C'' ''u1'']
   \<and> dedupe_entries (\<lambda>u. int (length u))
       [FeedEntry ''A'' ''u1'', FeedEntry ''B'' ''u2'', FeedEntry ''C'' ''u1'']
     = Inr [FeedEntry ''A'' ''u1'', FeedEntry ''B'' ''u2'']"
  using dedupe_entries_first_occurrence
    [of "[FeedEntry ''A'' ''u1'', FeedEntry ''B'' ''u2'', FeedEntry ''C'' ''u1'']"
        "\<lambda>u. int (length u)"]
  by simp

section \<open>Equality and hashing of entries\<close>

text \<open>
  Claim C2, as stated, fails on a pair of entries of different classes: a
  \<^verbatim>\<open>FeedEntry\<close> and a \<^verbatim>\<open>ShortenedFeedEntry\<close> with the same \<open>long_url\<close> do not compare
  equal, and a \<^verbatim>\<open>ShortenedFeedEntry\<close> has no hash value at all (hashing it raises).
\<close>

theorem entry_eq_mixed_classes_counterexample:
  "long_url (FeedEntry ''t'' ''u'') = long_url (ShortenedFeedEntry ''t'' ''u'' ''s'')
   \<and> \<not> entry_eq (FeedEntry ''t'' ''u'') (ShortenedFeedEntry ''t'' ''u'' ''s'')
   \<and> entry_hash (\<lambda>u. int (length u)) (ShortenedFeedEntry ''t'' ''u'' ''s'') = Inl TypeError"
  by (simp add: entry_eq_def)

text \<open>
  Claim C2, amended. Two entries of the same class are equal if and only if their
  \<open>long_url\<close>s are equal: \<open>title\<close> is excluded from equality, and so is \<open>short_url\<close>
  for \<^verbatim>\<open>ShortenedFeedEntry\<close>. The hash of a \<^verbatim>\<open>FeedEntry\<close> depends on \<open>long_url\<close>
  only. In the dictionary the deduplicator builds, a \<^verbatim>\<open>FeedEntry\<close> whose \<open>long_url\<close>
  is that of a stored key is the stored key, whatever the two titles.
\<close>

theorem entry_eq_hash_by_long_url:
  "entry_eq (FeedEntry t u) (FeedEntry t' u') = (u = u')
   \<and> entry_eq (ShortenedFeedEntry t u s) (ShortenedFeedEntry t' u' s') = (u = u')
   \<and> entry_hash h (FeedEntry t u) = entry_hash h (FeedEntry t' u)
   \<and> dict_insert_key (entry_hash h) entry_eq [FeedEntry t u] (FeedEntry t' u)
       = Inr [FeedEntry t u]"
  by (simp add: entry_eq_def dict_insert_key_def)

section \<open>Properties of the fetcher\<close>

lemma request_failedE:
  assumes "request_failed r" obtains msg where "r = Inl (RequestException msg)"
  using assms by (auto simp: request_failed_def split: sum.splits error.splits)

lemma attempts_trace_step:
  "i < k \<Longrightarrow> attempts_trace i k = [Request i, Sleep (2 ^ i)] @ attempts_trace (Suc i) k"
  by (simp add: attempts_trace_def upt_conv_Cons)

lemma attempts_trace_last: "attempts_trace k k = [Request k]"
  by (simp add: attempts_trace_def)

lemma read_url_success:
  assumes "i \<le> k" "k \<le> M"
    and "\<forall>n. i \<le> n \<and> n < k \<longrightarrow> request_failed (get n)"
    and "get k = Inr content"
  shows "read_url get M [i ..< Suc M] tr = (Inr content, tr @ attempts_trace i k)"
  using assms
proof (induction "k - i" arbitrary: i tr)
  case 0
  then have ik: "i = k" by simp
  have "[k ..< Suc M] = k # [Suc k ..< Suc M]" using \<open>k \<le> M\<close> by (simp add: upt_conv_Cons del: upt_Suc)
  then show ?case using 0 ik by (simp add: attempts_trace_last del: upt_Suc)
next
  case (Suc d)
  then have lt: "i < k" by simp
  with Suc.prems have f: "request_failed (get i)" by simp
  then obtain msg where g: "get i = Inl (RequestException msg)" by (rule request_failedE)
  have up: "[i ..< Suc M] = i # [Suc i ..< Suc M]" using lt \<open>k \<le> M\<close> by (simp add: upt_conv_Cons del: upt_Suc)
  have ne: "i \<noteq> M" using lt \<open>k \<le> M\<close> by simp
  have IH: "read_url get M [Suc i ..< Suc M] (tr @ [Request i, Sleep (2 ^ i)])
             = (Inr content, (tr @ [Request i, Sleep (2 ^ i)]) @ attempts_trace (Suc i) k)"
    using Suc.hyps(1)[of "Suc i"] Suc.hyps(2) Suc.prems lt by (simp del: upt_Suc)
  show ?case using IH by (simp add: up g ne attempts_trace_step[OF lt] del: upt_Suc)
qed

lemma read_url_exhausted:
  assumes "i \<le> M"
    and "\<forall>n. i \<le> n \<and> n \<le> M \<longrightarrow> request_failed (get n)"
    and "get M = Inl exc"
  shows "read_url get M [i ..< Suc M] tr = (Inl exc, tr @ attempts_trace i M)"
  using assms
proof (induction "M - i" arbitrary: i tr)
  case 0
  then have iM: "i = M" by simp
  from 0(3) iM have "request_failed (get M)" by blast
  then obtain msg where g: "get M = Inl (RequestException msg)" by (rule request_failedE)
  show ?case using 0 iM g by (auto simp: attempts_trace_last)
next
  case (Suc d)
  then have lt: "i < M" by simp
  with Suc.prems have f: "request_failed (get i)" by simp
  then obtain msg where g: "get i = Inl (RequestException msg)" by (rule request_failedE)
  have up: "[i ..< Suc M] = i # [Suc i ..< Suc M]" using lt by (simp add: upt_conv_Cons del: upt_Suc)
  have IH: "read_url get M [Suc i ..< Suc M] (tr @ [Request i, Sleep (2 ^ i)])
             = (Inl exc, (tr @ [Request i, Sleep (2 ^ i)]) @ attempts_trace (Suc i) M)"
    using Suc.hyps(1)[of "Suc i"] Suc.hyps(2) Suc.prems lt by (simp del: upt_Suc)
  show ?case using IH lt by (simp add: up g attempts_trace_step[OF lt] del: upt_Suc)
qed

lemma read_url_requests_bound:
  "length (filter is_Request (snd (read_url get M ns tr)))
     \<le> length (filter is_Request tr) + length ns"
proof (induction ns arbitrary: tr)
  case Nil then show ?case by simp
next
  case (Cons n ns)
  show ?case
  proof (cases "get n")
    case (Inr c) then show ?thesis by simp
  next
    case (Inl exc)
    show ?thesis
    proof (cases "\<exists>msg. exc = RequestException msg")
      case False
      then show ?thesis using Inl by (cases exc) auto
    next
      case True
      then obtain msg where e: "exc = RequestException msg" by blast
      show ?thesis
      proof (cases "n = M")
        case True then show ?thesis using Inl e by simp
      next
        case False
        have "length (filter is_Request (snd (read_url get M ns (tr @ [Request n, Sleep (2 ^ n)]))))
                \<le> length (filter is_Request (tr @ [Request n, Sleep (2 ^ n)])) + length ns"
          by (rule Cons.IH)
        then show ?thesis using Inl e False by simp
      qed
    qed
  qed
qed

text \<open>
  Claim C8. The loop makes at most \<^verbatim>\<open>READ_ATTEMPTS_MAX\<close> requests. When attempt
  \<open>k\<close> is the first that succeeds (every attempt before it failed with a
  \<^verbatim>\<open>requests.RequestException\<close>), the loop returns its content, and the events are
  the requests 1 to \<open>k\<close>, each but the last followed by a sleep of \<open>2 ^ n\<close>
  seconds after request \<open>n\<close>: nothing is requested after the first success. When
  all \<^verbatim>\<open>READ_ATTEMPTS_MAX\<close> attempts fail, the loop raises the exception of the last
  attempt, after the requests 1 to \<^verbatim>\<open>READ_ATTEMPTS_MAX\<close> with a sleep of \<open>2 ^ n\<close>
  after each failed request \<open>n\<close> but the last.
\<close>

theorem read_url_resiliently_attempts:
  "length (filter is_Request (snd (read_url_resiliently c get))) \<le> READ_ATTEMPTS_MAX c
   \<and> (\<forall>k content.
         1 \<le> k \<and> k \<le> READ_ATTEMPTS_MAX c
         \<and> (\<forall>n. 1 \<le> n \<and> n < k \<longrightarrow> request_failed (get n))
         \<and> get k = Inr content
         \<longrightarrow> read_url_resiliently c get = (Inr content, attempts_trace 1 k))
   \<and> (\<forall>exc.
         1 \<le> READ_ATTEMPTS_MAX c
         \<and> (\<forall>n. 1 \<le> n \<and> n \<le> READ_ATTEMPTS_MAX c \<longrightarrow> request_failed (get n))
         \<and> get (READ_ATTEMPTS_MAX c) = Inl exc
         \<longrightarrow> read_url_resiliently c get = (Inl exc, attempts_trace 1 (READ_ATTEMPTS_MAX c)))"
proof (intro conjI allI impI)
  show "length (filter is_Request (snd (read_url_resiliently c get))) \<le> READ_ATTEMPTS_MAX c"
    using read_url_requests_bound[of get "READ_ATTEMPTS_MAX c" "[1 ..< Suc (READ_ATTEMPTS_MAX c)]" "[]"]
    by (simp add: read_url_resiliently_def del: upt_Suc)
next
  fix k content
  assume a: "1 \<le> k \<and> k \<le> READ_ATTEMPTS_MAX c
         \<and> (\<forall>n. 1 \<le> n \<and> n < k \<longrightarrow> request_failed (get n))
         \<and> get k = Inr content"
  then show "read_url_resiliently c get = (Inr content, attempts_trace 1 k)"
    using read_url_success[of 1 k "READ_ATTEMPTS_MAX c" get content "[]"]
    by (simp add: read_url_resiliently_def del: upt_Suc)
next
  fix exc
  assume a: "1 \<le> READ_ATTEMPTS_MAX c
         \<and> (\<forall>n. 1 \<le> n \<and> n \<le> READ_ATTEMPTS_MAX c \<longrightarrow> request_failed (get n))
         \<and> get (READ_ATTEMPTS_MAX c) = Inl exc"
  then show "read_url_resiliently c get = (Inl exc, attempts_trace 1 (READ_ATTEMPTS_MAX c))"
    using read_url_exhausted[of 1 "READ_ATTEMPTS_MAX c" get exc "[]"]
    by (simp add: read_url_resiliently_def del: upt_Suc)
qed

theorem read_url_resiliently_attempts_witness:
  "1 \<le> (2::nat) \<and> 2 \<le> READ_ATTEMPTS_MAX
       \<lparr>READ_ATTEMPTS_MAX = 3, URL_CACHE_TTL = 3600, NEW_FEED_POSTS_DEFAULT = ''some'',
        NEW_FEED_POSTS_MAX = Map.empty\<rparr>
   \<and> request_failed
        ((\<lambda>n::nat. if n = 2 then Inr ''feed'' else Inl (RequestException ''timeout'')) 1)
   \<and> read_url_resiliently
       \<lparr>READ_ATTEMPTS_MAX = 3, URL_CACHE_TTL = 3600, NEW_FEED_POSTS_DEFAULT = ''some'',
        NEW_FEED_POSTS_MAX = Map.empty\<rparr>
       (\<lambda>n. if n = 2 then Inr ''feed'' else Inl (RequestException ''timeout''))
     = (Inr ''feed'', [Request 1, Sleep 2, Request 2])
   \<and> read_url_resiliently
       \<lparr>READ_ATTEMPTS_MAX = 3, URL_CACHE_TTL = 3600, NEW_FEED_POSTS_DEFAULT = ''some'',
        NEW_FEED_POSTS_MAX = Map.empty\<rparr>
       (\<lambda>n. Inl (RequestException ''timeout''))
     = (Inl (RequestException ''timeout''),
        [Request 1, Sleep 2, Request 2, Sleep 4, Request 3])"
proof -
  let ?c = "\<lparr>READ_ATTEMPTS_MAX = 3, URL_CACHE_TTL = 3600, NEW_FEED_POSTS_DEFAULT = ''some'',
        NEW_FEED_POSTS_MAX = Map.empty\<rparr>"
  let ?get = "\<lambda>n::nat. if n = 2 then Inr ''feed'' else Inl (RequestException ''timeout'')"
  let ?bad = "\<lambda>n::nat. (Inl (RequestException ''timeout'') :: error + string)"
  have h1: "1 \<le> (2::nat) \<and> 2 \<le> READ_ATTEMPTS_MAX ?c
       \<and> (\<forall>n. 1 \<le> n \<and> n < 2 \<longrightarrow> request_failed (?get n)) \<and> ?get 2 = Inr ''feed''"
    by (simp add: request_failed_def)
  have h2: "1 \<le> READ_ATTEMPTS_MAX ?c
       \<and> (\<forall>n. 1 \<le> n \<and> n \<le> READ_ATTEMPTS_MAX ?c \<longrightarrow> request_failed (?bad n))
       \<and> ?bad (READ_ATTEMPTS_MAX ?c) = Inl (RequestException ''timeout'')"
    by (simp add: request_failed_def)
  have r1: "read_url_resiliently ?c ?get = (Inr ''feed'', attempts_trace 1 2)"
    using read_url_resiliently_attempts[of ?c ?get] h1 by blast
  have r2: "read_url_resiliently ?c ?bad
              = (Inl (RequestException ''timeout''), attempts_trace 1 (READ_ATTEMPTS_MAX ?c))"
    using read_url_resiliently_attempts[of ?c ?bad] h2 by blast
  have t1: "attempts_trace 1 2 = [Request 1, Sleep 2, Request 2]"
    by (simp add: attempts_trace_def upt_conv_Cons)
  have t2: "attempts_trace 1 (READ_ATTEMPTS_MAX ?c)
             = [Request 1, Sleep 2, Request 2, Sleep 4, Request 3]"
    by (simp add: attempts_trace_def upt_conv_Cons)
  show ?thesis using h1 r1 r2 t1 t2 by (simp add: request_failed_def)
qed

section \<open>Properties of the delivery history gate\<close>

text \<open>
  Claim C4. With \<^verbatim>\<open>dedup\<close> absent or \<^verbatim>\<open>"channel"\<close> the one query made is
  \<^verbatim>\<open>select_unposted_for_channel\<close>, with \<^verbatim>\<open>"feed"\<close> it is
  \<^verbatim>\<open>select_unposted_for_channel_feed\<close>, each with the \<open>long_url\<close>s of the entries
  in their order; any other value raises (\<^verbatim>\<open>AssertionError\<close>) and queries nothing.
  The list returned is the input filtered by membership of \<open>long_url\<close> in the set
  of the store's answer: a subsequence of the input, and the same for any two stores
  whose answers hold the same URLs in whatever order.
\<close>

theorem unposted_entries_dedup_scope:
  "(cfg_dedup cfg = None \<or> cfg_dedup cfg = Some ''channel'' \<longrightarrow>
      unposted_entries store cfg channel name entries =
        (Inr (filter (\<lambda>e. long_url e \<in>
                set (select_unposted_for_channel store channel name (map long_url entries)))
              entries),
         [SelectUnpostedForChannel channel name (map long_url entries)]))
   \<and> (cfg_dedup cfg = Some ''feed'' \<longrightarrow>
      unposted_entries store cfg channel name entries =
        (Inr (filter (\<lambda>e. long_url e \<in>
                set (select_unposted_for_channel_feed store channel name (map long_url entries)))
              entries),
         [SelectUnpostedForChannelFeed channel name (map long_url entries)]))
   \<and> (\<forall>s. cfg_dedup cfg = Some s \<and> s \<noteq> ''channel'' \<and> s \<noteq> ''feed'' \<longrightarrow>
      unposted_entries store cfg channel name entries = (Inl AssertionError, []))
   \<and> (\<forall>r. fst (unposted_entries store cfg channel name entries) = Inr r \<longrightarrow> subseq r entries)
   \<and> (\<forall>store' :: db.
        set (select_unposted_for_channel store' channel name (map long_url entries))
          = set (select_unposted_for_channel store channel name (map long_url entries))
        \<and> set (select_unposted_for_channel_feed store' channel name (map long_url entries))
          = set (select_unposted_for_channel_feed store channel name (map long_url entries))
        \<longrightarrow> fst (unposted_entries store' cfg channel name entries)
            = fst (unposted_entries store cfg channel name entries))"
proof (intro conjI allI impI)
  assume "cfg_dedup cfg = None \<or> cfg_dedup cfg = Some ''channel''"
  then show "unposted_entries store cfg channel name entries =
        (Inr (filter (\<lambda>e. long_url e \<in>
                set (select_unposted_for_channel store channel name (map long_url entries)))
              entries),
         [SelectUnpostedForChannel channel name (map long_url entries)])"
    by (auto simp: unposted_entries_def DEDUP_STRATEGY_DEFAULT_def Let_def)
next
  assume "cfg_dedup cfg = Some ''feed''"
  then show "unposted_entries store cfg channel name entries =
        (Inr (filter (\<lambda>e. long_url e \<in>
                set (select_unposted_for_channel_feed store channel name (map long_url entries)))
              entries),
         [SelectUnpostedForChannelFeed channel name (map long_url entries)])"
    by (simp add: unposted_entries_def Let_def)
next
  fix s assume "cfg_dedup cfg = Some s \<and> s \<noteq> ''channel'' \<and> s \<noteq> ''feed''"
  then show "unposted_entries store cfg channel name entries = (Inl AssertionError, [])"
    by (simp add: unposted_entries_def Let_def)
next
  fix r assume "fst (unposted_entries store cfg channel name entries) = Inr r"
  then show "subseq r entries"
    by (auto simp: unposted_entries_def Let_def split: if_splits)
next
  fix store' :: db
  assume "set (select_unposted_for_channel store' channel name (map long_url entries))
          = set (select_unposted_for_channel store channel name (map long_url entries))
        \<and> set (select_unposted_for_channel_feed store' channel name (map long_url entries))
          = set (select_unposted_for_channel_feed store channel name (map long_url entries))"
  then show "fst (unposted_entries store' cfg channel name entries)
            = fst (unposted_entries store cfg channel name entries)"
    by (simp add: unposted_entries_def Let_def)
qed

theorem unposted_entries_dedup_scope_witness:
  "unposted_entries
     \<lparr>is_new_feed = (\<lambda>c n. False),
      select_unposted_for_channel = (\<lambda>c n us. [''u3'', ''u1'']),
      select_unposted_for_channel_feed = (\<lambda>c n us. rev us)\<rparr>
     \<lparr>cfg_whitelist = \<lparr>sl_title = None, sl_url = None, sl_explain = None\<rparr>,
      cfg_blacklist = \<lparr>sl_title = None, sl_url = None, sl_explain = None\<rparr>,
      cfg_https = None, cfg_sub = \<lparr>sub_title = None, sub_url = None\<rparr>, cfg_format = None,
      cfg_new = None, cfg_dedup = None, cfg_shorten = None\<rparr>
     ''#chan'' ''feedA''
     [FeedEntry ''A'' ''u1'', FeedEntry ''B'' ''u2'', FeedEntry ''C'' ''u3'']
   = (Inr [FeedEntry ''A'' ''u1'', FeedEntry ''C'' ''u3''],
      [SelectUnpostedForChannel ''#chan'' ''feedA'' [''u1'', ''u2'', ''u3'']])
   \<and> unposted_entries
     \<lparr>is_new_feed = (\<lambda>c n. False),
      select_unposted_for_channel = (\<lambda>c n us. [''u3'', ''u1'']),
      select_unposted_for_channel_feed = (\<lambda>c n us. rev us)\<rparr>
     \<lparr>cfg_whitelist = \<lparr>sl_title = None, sl_url = None, sl_explain = None\<rparr>,
      cfg_blacklist = \<lparr>sl_title = None, sl_url = None, sl_explain = None\<rparr>,
      cfg_https = None, cfg_sub = \<lparr>sub_title = None, sub_url = None\<rparr>, cfg_format = None,
      cfg_new = None, cfg_dedup = Some ''feed'', cfg_shorten = None\<rparr>
     ''#chan'' ''feedA''
     [FeedEntry ''A'' ''u1'', FeedEntry ''B'' ''u2'', FeedEntry ''C'' ''u3'']
   = (Inr [FeedEntry ''A'' ''u1'', FeedEntry ''B'' ''u2'', FeedEntry ''C'' ''u3''],
      [SelectUnpostedForChannelFeed ''#chan'' ''feedA'' [''u1'', ''u2'', ''u3'']])
   \<and> unposted_entries
     \<lparr>is_new_feed = (\<lambda>c n. False),
      select_unposted_for_channel = (\<lambda>c n us. [''u3'', ''u1'']),
      select_unposted_for_channel_feed = (\<lambda>c n us. rev us)\<rparr>
     \<lparr>cfg_whitelist = \<lparr>sl_title = None, sl_url = None, sl_explain = None\<rparr>,
      cfg_blacklist = \<lparr>sl_title = None, sl_url = None, sl_explain = None\<rparr>,
      cfg_https = None, cfg_sub = \<lparr>sub_title = None, sub_url = None\<rparr>, cfg_format = None,
      cfg_new = None, cfg_dedup = Some ''server'', cfg_shorten = None\<rparr>
     ''#chan'' ''feedA''
     [FeedEntry ''A'' ''u1'', FeedEntry ''B'' ''u2'', FeedEntry ''C'' ''u3'']
   = (Inl AssertionError, [])"
proof -
  let ?store = "\<lparr>is_new_feed = (\<lambda>c n. False),
      select_unposted_for_channel = (\<lambda>c n us. [''u3'', ''u1'']),
      select_unposted_for_channel_feed = (\<lambda>c n us. rev us)\<rparr>"
  let ?cfg = "\<lambda>d. \<lparr>cfg_whitelist = \<lparr>sl_title = None, sl_url = None, sl_explain = None\<rparr>,
      cfg_blacklist = \<lparr>sl_title = None, sl_url = None, sl_explain = None\<rparr>,
      cfg_https = None, cfg_sub = \<lparr>sub_title = None, sub_url = None\<rparr>, cfg_format = None,
      cfg_new = None, cfg_dedup = d, cfg_shorten = None\<rparr>"
  let ?es = "[FeedEntry ''A'' ''u1'', FeedEntry ''B'' ''u2'', FeedEntry ''C'' ''u3'']"
  have c: "unposted_entries ?store (?cfg None) ''#chan'' ''feedA'' ?es =
        (Inr (filter (\<lambda>e. long_url e \<in>
                set (select_unposted_for_channel ?store ''#chan'' ''feedA'' (map long_url ?es)))
              ?es),
         [SelectUnpostedForChannel ''#chan'' ''feedA'' (map long_url ?es)])"
    by (rule unposted_entries_dedup_scope[THEN conjunct1, THEN mp]) simp
  have f: "unposted_entries ?store (?cfg (Some ''feed'')) ''#chan'' ''feedA'' ?es =
        (Inr (filter (\<lambda>e. long_url e \<in>
                set (select_unposted_for_channel_feed ?store ''#chan'' ''feedA'' (map long_url ?es)))
              ?es),
         [SelectUnpostedForChannelFeed ''#chan'' ''feedA'' (map long_url ?es)])"
    by (rule unposted_entries_dedup_scope[THEN conjunct2, THEN conjunct1, THEN mp]) simp
  have o: "unposted_entries ?store (?cfg (Some ''server'')) ''#chan'' ''feedA'' ?es
             = (Inl AssertionError, [])"
    by (rule unposted_entries_dedup_scope
          [THEN conjunct2, THEN conjunct2, THEN conjunct1, THEN spec, THEN mp,
           of _ "''server''"]) simp
  show ?thesis
    unfolding c f o by simp
qed

section \<open>Properties of the new-feed throttle and the shortening adapter\<close>

lemma enumerate_shortened_enough:
  "i + length es \<le> length short_urls \<Longrightarrow>
   enumerate_shortened i es short_urls =
     Inr (map2 (\<lambda>e s. ShortenedFeedEntry (title e) (long_url e) s) es (drop i short_urls))"
proof (induction es arbitrary: i)
  case Nil then show ?case by simp
next
  case (Cons e es)
  then have lt: "i < length short_urls" by simp
  have d: "drop i short_urls = short_urls ! i # drop (Suc i) short_urls"
    using lt by (simp add: Cons_nth_drop_Suc)
  have "enumerate_shortened (Suc i) es short_urls =
     Inr (map2 (\<lambda>e s. ShortenedFeedEntry (title e) (long_url e) s) es (drop (Suc i) short_urls))"
    using Cons.prems by (intro Cons.IH) simp
  then show ?case using lt by (simp add: d)
qed

text \<open>
  Claim C7. When the store reports the feed as new and the table
  \<^verbatim>\<open>NEW_FEED_POSTS_MAX\<close> maps the feed's \<^verbatim>\<open>new\<close> symbol (the default symbol
  \<^verbatim>\<open>NEW_FEED_POSTS_DEFAULT\<close> when the key is absent) to \<open>cap\<close>, the throttle keeps
  exactly the first \<open>cap\<close> unposted entries in their order (at most \<open>cap\<close> of
  them, a prefix of the list), and these are what the rest of
  \<^verbatim>\<open>postable_entries\<close> works on. When the default symbol resolves to 3 (the value
  of \<^verbatim>\<open>MAX_POSTS_OF_NEW_FEED\<close> in config.py) and the feed names no symbol, the first 3
  are kept. When the store does not report the feed as new, nothing is cut.
\<close>

theorem postable_entries_new_feed_cap:
  "(is_new_feed store channel name
      \<and> NEW_FEED_POSTS_MAX c (case cfg_new cfg of None \<Rightarrow> NEW_FEED_POSTS_DEFAULT c | Some s \<Rightarrow> s)
          = Some cap
     \<longrightarrow> new_feed_filter c store cfg channel name unposted = Inr (take cap unposted)
       \<and> length (take cap unposted) \<le> cap
       \<and> prefix (take cap unposted) unposted
       \<and> fst (postable_entries c store shorten_urls cfg channel name unposted)
           = fst (shorten_entries shorten_urls cfg (take cap unposted)))
   \<and> (is_new_feed store channel name \<and> cfg_new cfg = None
      \<and> NEW_FEED_POSTS_MAX c (NEW_FEED_POSTS_DEFAULT c) = Some MAX_POSTS_OF_NEW_FEED
     \<longrightarrow> new_feed_filter c store cfg channel name unposted = Inr (take 3 unposted))
   \<and> (\<not> is_new_feed store channel name
     \<longrightarrow> new_feed_filter c store cfg channel name unposted = Inr unposted
       \<and> fst (postable_entries c store shorten_urls cfg channel name unposted)
           = fst (shorten_entries shorten_urls cfg unposted))"
  by (auto simp: new_feed_filter_def postable_entries_def MAX_POSTS_OF_NEW_FEED_def take_is_prefix
      split: prod.splits)

theorem postable_entries_new_feed_cap_witness:
  "is_new_feed
     \<lparr>is_new_feed = (\<lambda>ch n. n = ''fresh''),
      select_unposted_for_channel = (\<lambda>ch n us. us),
      select_unposted_for_channel_feed = (\<lambda>ch n us. us)\<rparr> ''#chan'' ''fresh''
   \<and> NEW_FEED_POSTS_MAX
       \<lparr>READ_ATTEMPTS_MAX = 3, URL_CACHE_TTL = 3600, NEW_FEED_POSTS_DEFAULT = ''some'',
        NEW_FEED_POSTS_MAX = [''none'' \<mapsto> 0, ''some'' \<mapsto> 3]\<rparr> ''some'' = Some 3
   \<and> fst (postable_entries
       \<lparr>READ_ATTEMPTS_MAX = 3, URL_CACHE_TTL = 3600, NEW_FEED_POSTS_DEFAULT = ''some'',
        NEW_FEED_POSTS_MAX = [''none'' \<mapsto> 0, ''some'' \<mapsto> 3]\<rparr>
       \<lparr>is_new_feed = (\<lambda>ch n. n = ''fresh''),
        select_unposted_for_channel = (\<lambda>ch n us. us),
        select_unposted_for_channel_feed = (\<lambda>ch n us. us)\<rparr>
       (\<lambda>us. Inr us)
       \<lparr>cfg_whitelist = \<lparr>sl_title = None, sl_url = None, sl_explain = None\<rparr>,
        cfg_blacklist = \<lparr>sl_title = None, sl_url = None, sl_explain = None\<rparr>,
        cfg_https = None, cfg_sub = \<lparr>sub_title = None, sub_url = None\<rparr>, cfg_format = None,
        cfg_new = None, cfg_dedup = None, cfg_shorten = Some False\<rparr>
       ''#chan'' ''fresh''
       [FeedEntry ''T0'' ''u0'', FeedEntry ''T1'' ''u1'', FeedEntry ''T2'' ''u2'',
        FeedEntry ''T3'' ''u3'', FeedEntry ''T4'' ''u4'', FeedEntry ''T5'' ''u5'',
        FeedEntry ''T6'' ''u6'', FeedEntry ''T7'' ''u7'', FeedEntry ''T8'' ''u8'',
        FeedEntry ''T9'' ''u9''])
     = Inr [FeedEntry ''T0'' ''u0'', FeedEntry ''T1'' ''u1'', FeedEntry ''T2'' ''u2'']"
proof -
  let ?store = "\<lparr>is_new_feed = (\<lambda>ch n. n = ''fresh''),
      select_unposted_for_channel = (\<lambda>ch n us. us),
      select_unposted_for_channel_feed = (\<lambda>ch n us. us)\<rparr>"
  let ?c = "\<lparr>READ_ATTEMPTS_MAX = 3, URL_CACHE_TTL = 3600, NEW_FEED_POSTS_DEFAULT = ''some'',
        NEW_FEED_POSTS_MAX = [''none'' \<mapsto> 0, ''some'' \<mapsto> 3]\<rparr>"
  let ?cfg = "\<lparr>cfg_whitelist = \<lparr>sl_title = None, sl_url = None, sl_explain = None\<rparr>,
        cfg_blacklist = \<lparr>sl_title = None, sl_url = None, sl_explain = None\<rparr>,
        cfg_https = None, cfg_sub = \<lparr>sub_title = None, sub_url = None\<rparr>, cfg_format = None,
        cfg_new = None, cfg_dedup = None, cfg_shorten = Some False\<rparr>"
  let ?es = "[FeedEntry ''T0'' ''u0'', FeedEntry ''T1'' ''u1'', FeedEntry ''T2'' ''u2'',
        FeedEntry ''T3'' ''u3'', FeedEntry ''T4'' ''u4'', FeedEntry ''T5'' ''u5'',
        FeedEntry ''T6'' ''u6'', FeedEntry ''T7'' ''u7'', FeedEntry ''T8'' ''u8'',
        FeedEntry ''T9'' ''u9'']"
  have h: "is_new_feed ?store ''#chan'' ''fresh''
      \<and> NEW_FEED_POSTS_MAX ?c (case cfg_new ?cfg of None \<Rightarrow> NEW_FEED_POSTS_DEFAULT ?c | Some s \<Rightarrow> s)
          = Some 3"
    by simp
  have "fst (postable_entries ?c ?store (\<lambda>us. Inr us) ?cfg ''#chan'' ''fresh'' ?es)
           = fst (shorten_entries (\<lambda>us. Inr us) ?cfg (take 3 ?es))"
    using postable_entries_new_feed_cap
      [where store = ?store and c = ?c and cfg = ?cfg and channel = "''#chan''"
         and name = "''fresh''" and cap = 3 and unposted = ?es
         and shorten_urls = "\<lambda>us. Inr us", THEN conjunct1, THEN mp, OF h]
    by blast
  also have "\<dots> = Inr [FeedEntry ''T0'' ''u0'', FeedEntry ''T1'' ''u1'', FeedEntry ''T2'' ''u2'']"
    by (simp add: shorten_entries_def)
  finally show ?thesis by simp
qed

text \<open>
  Claim C9. Let \<open>entries\<close> be the list the throttle hands on. The calls of
  \<^verbatim>\<open>postable_entries\<close> are the store's \<^verbatim>\<open>is_new_feed\<close> and then, if and only if
  \<open>entries\<close> is not empty and \<^verbatim>\<open>shorten\<close> is true or absent, exactly one call of
  the shortener, with the \<open>long_url\<close>s of all entries in list order. Without that
  call the entries are returned as they are. With it, when the shortener answers with
  at least as many short URLs as there are entries, the result holds for each entry, at
  the same position, a \<^verbatim>\<open>ShortenedFeedEntry\<close> with the entry's \<open>title\<close> and
  \<open>long_url\<close> and the shortener's output of that position as \<open>short_url\<close>.
\<close>

theorem postable_entries_shortening:
  assumes "new_feed_filter c store cfg channel name unposted = Inr entries"
  shows "snd (postable_entries c store shorten_urls cfg channel name unposted)
           = IsNewFeed channel name #
             (if entries \<noteq> [] \<and> cfg_shorten cfg \<noteq> Some False
              then [ShortenUrls (map long_url entries)] else [])
       \<and> (entries = [] \<or> cfg_shorten cfg = Some False \<longrightarrow>
            fst (postable_entries c store shorten_urls cfg channel name unposted) = Inr entries)
       \<and> (\<forall>short_urls.
            entries \<noteq> [] \<and> cfg_shorten cfg \<noteq> Some False
            \<and> shorten_urls (map long_url entries) = Inr short_urls
            \<and> length entries \<le> length short_urls
            \<longrightarrow> fst (postable_entries c store shorten_urls cfg channel name unposted)
                = Inr (map2 (\<lambda>e s. ShortenedFeedEntry (title e) (long_url e) s)
                         entries short_urls))"
proof -
  have sh: "(case cfg_shorten cfg of None \<Rightarrow> True | Some b \<Rightarrow> b) = (cfg_shorten cfg \<noteq> Some False)"
    by (cases "cfg_shorten cfg") auto
  have calls: "snd (postable_entries c store shorten_urls cfg channel name unposted)
           = IsNewFeed channel name #
             (if entries \<noteq> [] \<and> cfg_shorten cfg \<noteq> Some False
              then [ShortenUrls (map long_url entries)] else [])"
    using assms
    by (simp add: postable_entries_def shorten_entries_def sh Let_def split: sum.splits)
  have off: "entries = [] \<or> cfg_shorten cfg = Some False \<longrightarrow>
            fst (postable_entries c store shorten_urls cfg channel name unposted) = Inr entries"
    using assms by (auto simp: postable_entries_def shorten_entries_def)
  have on: "\<forall>short_urls.
            entries \<noteq> [] \<and> cfg_shorten cfg \<noteq> Some False
            \<and> shorten_urls (map long_url entries) = Inr short_urls
            \<and> length entries \<le> length short_urls
            \<longrightarrow> fst (postable_entries c store shorten_urls cfg channel name unposted)
                = Inr (map2 (\<lambda>e s. ShortenedFeedEntry (title e) (long_url e) s)
                         entries short_urls)"
  proof (intro allI impI)
    fix short_urls
    assume a: "entries \<noteq> [] \<and> cfg_shorten cfg \<noteq> Some False
            \<and> shorten_urls (map long_url entries) = Inr short_urls
            \<and> length entries \<le> length short_urls"
    then have "enumerate_shortened 0 entries short_urls
                = Inr (map2 (\<lambda>e s. ShortenedFeedEntry (title e) (long_url e) s)
                         entries short_urls)"
      using enumerate_shortened_enough[of 0 entries short_urls] by simp
    then show "fst (postable_entries c store shorten_urls cfg channel name unposted)
                = Inr (map2 (\<lambda>e s. ShortenedFeedEntry (title e) (long_url e) s)
                         entries short_urls)"
      using assms a by (simp add: postable_entries_def shorten_entries_def sh)
  qed
  show ?thesis using calls off on by blast
qed


theorem postable_entries_shortening_witness:
  "new_feed_filter
       \<lparr>READ_ATTEMPTS_MAX = 3, URL_CACHE_TTL = 3600, NEW_FEED_POSTS_DEFAULT = ''some'',
        NEW_FEED_POSTS_MAX = [''none'' \<mapsto> 0, ''some'' \<mapsto> 3]\<rparr>
       \<lparr>is_new_feed = (\<lambda>ch n. False),
        select_unposted_for_channel = (\<lambda>ch n us. us),
        select_unposted_for_channel_feed = (\<lambda>ch n us. us)\<rparr>
       \<lparr>cfg_whitelist = \<lparr>sl_title = None, sl_url = None, sl_explain = None\<rparr>,
        cfg_blacklist = \<lparr>sl_title = None, sl_url = None, sl_explain = None\<rparr>,
        cfg_https = None, cfg_sub = \<lparr>sub_title = None, sub_url = None\<rparr>, cfg_format = None,
        cfg_new = None, cfg_dedup = None, cfg_shorten = None\<rparr>
       ''#chan'' ''feedA''
       [FeedEntry ''T1'' ''http://x.test/1'', FeedEntry ''T2'' ''http://x.test/2'']
     = Inr [FeedEntry ''T1'' ''http://x.test/1'', FeedEntry ''T2'' ''http://x.test/2'']
   \<and> postable_entries
       \<lparr>READ_ATTEMPTS_MAX = 3, URL_CACHE_TTL = 3600, NEW_FEED_POSTS_DEFAULT = ''some'',
        NEW_FEED_POSTS_MAX = [''none'' \<mapsto> 0, ''some'' \<mapsto> 3]\<rparr>
       \<lparr>is_new_feed = (\<lambda>ch n. False),
        select_unposted_for_channel = (\<lambda>ch n us. us),
        select_unposted_for_channel_feed = (\<lambda>ch n us. us)\<rparr>
       (\<lambda>us. Inr (map (\<lambda>u. ''https://j.mp/'' @ drop 14 u) us))
       \<lparr>cfg_whitelist = \<lparr>sl_title = None, sl_url = None, sl_explain = None\<rparr>,
        cfg_blacklist = \<lparr>sl_title = None, sl_url = None, sl_explain = None\<rparr>,
        cfg_https = None, cfg_sub = \<lparr>sub_title = None, sub_url = None\<rparr>, cfg_format = None,
        cfg_new = None, cfg_dedup = None, cfg_shorten = None\<rparr>
       ''#chan'' ''feedA''
       [FeedEntry ''T1'' ''http://x.test/1'', FeedEntry ''T2'' ''http://x.test/2'']
     = (Inr [ShortenedFeedEntry ''T1'' ''http://x.test/1'' ''https://j.mp/1'',
             ShortenedFeedEntry ''T2'' ''http://x.test/2'' ''https://j.mp/2''],
        [IsNewFeed ''#chan'' ''feedA'',
         ShortenUrls [''http://x.test/1'', ''http://x.test/2'']])"
proof -
  let ?store = "\<lparr>is_new_feed = (\<lambda>ch n. False),
        select_unposted_for_channel = (\<lambda>ch n us. us),
        select_unposted_for_channel_feed = (\<lambda>ch n us. us)\<rparr>"
  let ?c = "\<lparr>READ_ATTEMPTS_MAX = 3, URL_CACHE_TTL = 3600, NEW_FEED_POSTS_DEFAULT = ''some'',
        NEW_FEED_POSTS_MAX = [''none'' \<mapsto> 0, ''some'' \<mapsto> 3]\<rparr>"
  let ?cfg = "\<lparr>cfg_whitelist = \<lparr>sl_title = None, sl_url = None, sl_explain = None\<rparr>,
        cfg_blacklist = \<lparr>sl_title = None, sl_url = None, sl_explain = None\<rparr>,
        cfg_https = None, cfg_sub = \<lparr>sub_title = None, sub_url = None\<rparr>, cfg_format = None,
        cfg_new = None, cfg_dedup = None, cfg_shorten = None\<rparr>"
  let ?es = "[FeedEntry ''T1'' ''http://x.test/1'', FeedEntry ''T2'' ''http://x.test/2'']"
  let ?sh = "\<lambda>us. Inr (map (\<lambda>u. ''https://j.mp/'' @ drop 14 u) us) :: error + string list"
  have h: "new_feed_filter ?c ?store ?cfg ''#chan'' ''feedA'' ?es = Inr ?es"
    by (simp add: new_feed_filter_def)
  note T = postable_entries_shortening[OF h, where shorten_urls = ?sh]
  have calls: "snd (postable_entries ?c ?store ?sh ?cfg ''#chan'' ''feedA'' ?es)
      = [IsNewFeed ''#chan'' ''feedA'', ShortenUrls [''http://x.test/1'', ''http://x.test/2'']]"
    using T[THEN conjunct1] by simp
  have res: "fst (postable_entries ?c ?store ?sh ?cfg ''#chan'' ''feedA'' ?es)
      = Inr (map2 (\<lambda>e s. ShortenedFeedEntry (title e) (long_url e) s) ?es
               [''https://j.mp/1'', ''https://j.mp/2''])"
    by (rule T[THEN conjunct2, THEN conjunct2, THEN spec, THEN mp]) simp
  have "postable_entries ?c ?store ?sh ?cfg ''#chan'' ''feedA'' ?es
     = (Inr [ShortenedFeedEntry ''T1'' ''http://x.test/1'' ''https://j.mp/1'',
             ShortenedFeedEntry ''T2'' ''http://x.test/2'' ''https://j.mp/2''],
        [IsNewFeed ''#chan'' ''feedA'',
         ShortenUrls [''http://x.test/1'', ''http://x.test/2'']])"
    using calls res by (simp add: prod_eq_iff)
  then show ?thesis using h by simp
qed

section \<open>Properties of whitelist matching and the whitelist stage\<close>

lemma search_patterns_find:
  "search_patterns L ps v =
     (case find (\<lambda>p. re_search L p v \<noteq> None) ps of None \<Rightarrow> None | Some p \<Rightarrow> re_search L p v)"
  by (induction ps) (auto split: option.splits)

lemma search_patterns_None:
  "search_patterns L ps v = None \<longleftrightarrow> (\<forall>p \<in> set ps. re_search L p v = None)"
  by (induction ps) (auto split: option.splits)

lemma is_listed_title_first:
  "is_listed L e sl =
     (case search_patterns L (searchlist_get sl ''title'') (title e) of
        Some m \<Rightarrow> Some (''title'', m)
      | None \<Rightarrow>
          (case search_patterns L (searchlist_get sl ''url'') (long_url e) of
             Some m \<Rightarrow> Some (''url'', m)
           | None \<Rightarrow> None))"
  by (simp add: is_listed_def split: option.splits)

lemma is_listed_Some_iff:
  "is_listed L e sl \<noteq> None \<longleftrightarrow>
     (\<exists>p \<in> set (searchlist_get sl ''title''). re_search L p (title e) \<noteq> None)
     \<or> (\<exists>p \<in> set (searchlist_get sl ''url''). re_search L p (long_url e) \<noteq> None)"
proof -
  have "is_listed L e sl = None \<longleftrightarrow>
      search_patterns L (searchlist_get sl ''title'') (title e) = None
      \<and> search_patterns L (searchlist_get sl ''url'') (long_url e) = None"
    by (simp add: is_listed_title_first split: option.splits)
  then show ?thesis by (auto simp: search_patterns_None)
qed

lemma whitelist_loop_result:
  assumes "distinct as"
  shows "objs (whitelist_loop L wl out as H) =
           (\<lambda>a. if a \<in> set as then explained L wl (objs H a) else objs H a)
       \<and> lists (whitelist_loop L wl out as H) =
           (lists H)(out := lists H out @ filter (listed_at L wl H) as)
       \<and> lim_obj (whitelist_loop L wl out as H) = lim_obj H
       \<and> lim_list (whitelist_loop L wl out as H) = lim_list H"
  using assms
proof (induction as arbitrary: H)
  case Nil
  then show ?case by simp
next
  case (Cons a as)
  then have d: "distinct as" and na: "a \<notin> set as" by simp_all
  show ?case
  proof (cases "is_listed L (objs H a) wl")
    case None
    have step: "whitelist_loop L wl out (a # as) H = whitelist_loop L wl out as H"
      by (simp add: None)
    have ex: "explained L wl (objs H a) = objs H a" by (simp add: explained_def None)
    have fl: "filter (listed_at L wl H) (a # as) = filter (listed_at L wl H) as"
      by (simp add: listed_at_def None)
    have "(\<lambda>b. if b \<in> set as then explained L wl (objs H b) else objs H b)
        = (\<lambda>b. if b \<in> set (a # as) then explained L wl (objs H b) else objs H b)"
      using ex by (auto simp: fun_eq_iff)
    then show ?thesis unfolding step fl using Cons.IH[OF d, of H] by simp
  next
    case (Some km)
    obtain key m where km: "km = (key, m)" by (cases km)
    define H1 where "H1 = (if explain_set wl \<and> key = ''title''
                     then H\<lparr>objs := (objs H)(a := set_title (explain_title m (title (objs H a))) (objs H a))\<rparr>
                     else H)"
    define H2 where "H2 = H1\<lparr>lists := (lists H1)(out := lists H1 out @ [a])\<rparr>"
    have step: "whitelist_loop L wl out (a # as) H = whitelist_loop L wl out as H2"
      by (simp add: Some km H1_def H2_def Let_def)
    have o2: "objs H2 = (objs H)(a := explained L wl (objs H a))"
      by (auto simp: H2_def H1_def explained_def Some km)
    have l2: "lists H2 = (lists H)(out := lists H out @ [a])"
      by (auto simp: H2_def H1_def)
    have lim: "lim_obj H2 = lim_obj H" "lim_list H2 = lim_list H"
      by (auto simp: H2_def H1_def)
    have same: "\<And>b. b \<in> set as \<Longrightarrow> objs H2 b = objs H b"
      using na by (auto simp: o2)
    have f: "filter (listed_at L wl H2) as = filter (listed_at L wl H) as"
      by (rule filter_cong) (simp_all add: same listed_at_def)
    have fa: "filter (listed_at L wl H) (a # as) = a # filter (listed_at L wl H) as"
      by (simp add: listed_at_def Some)
    note IH = Cons.IH[OF d, of H2]
    have A: "objs (whitelist_loop L wl out as H2) =
           (\<lambda>b. if b \<in> set (a # as) then explained L wl (objs H b) else objs H b)"
    proof (rule ext)
      fix b
      have r: "objs (whitelist_loop L wl out as H2) b
                 = (if b \<in> set as then explained L wl (objs H2 b) else objs H2 b)"
        using IH by simp
      show "objs (whitelist_loop L wl out as H2) b =
           (if b \<in> set (a # as) then explained L wl (objs H b) else objs H b)"
      proof (cases "b = a")
        case True
        then show ?thesis using r na by (simp add: o2)
      next
        case False
        then have "objs H2 b = objs H b" by (simp add: o2)
        then show ?thesis using r False by simp
      qed
    qed
    have "lists (whitelist_loop L wl out as H2) =
           (lists H2)(out := lists H2 out @ filter (listed_at L wl H2) as)"
      using IH by blast
    also have "\<dots> = (lists H)(out := lists H out @ filter (listed_at L wl H) (a # as))"
      unfolding f fa l2 by simp
    finally have B: "lists (whitelist_loop L wl out as H2) =
           (lists H)(out := lists H out @ filter (listed_at L wl H) (a # as))" .
    have C: "lim_obj (whitelist_loop L wl out as H2) = lim_obj H"
         "lim_list (whitelist_loop L wl out as H2) = lim_list H"
      using IH lim by simp_all
    show ?thesis unfolding step using A B C by blast
  qed
qed

lemma filter_filter_same: "filter P (filter P xs) = filter P xs"
  by (induction xs) auto

lemma whitelist_stage_result:
  assumes "distinct (lists H entries)"
    and "whitelist_stage L wl entries H = (entries', H')"
  shows "lists H' entries' = filter (listed_at L wl H) (lists H entries)"
    and "objs H' = (\<lambda>a. if a \<in> set (lists H entries) then explained L wl (objs H a) else objs H a)"
    and "lim_obj H' = lim_obj H"
proof -
  define f where "f = filter (listed_at L wl H) (lists H entries)"
  define H1 where "H1 = snd (new_list f H)"
  define H2 where "H2 = snd (new_list [] H1)"
  have ff: "filter (\<lambda>a. is_listed L (objs H a) wl \<noteq> None) (lists H entries) = f"
    unfolding f_def listed_at_def ..
  have "whitelist_stage L wl entries H
        = (Suc (lim_list H), whitelist_loop L wl (Suc (lim_list H)) f H2)"
    unfolding whitelist_stage_def ff
    by (simp add: new_list_def H1_def H2_def Let_def)
  with assms(2) have e: "entries' = Suc (lim_list H)"
    and h: "H' = whitelist_loop L wl (Suc (lim_list H)) f H2"
    by auto
  have o2: "objs H2 = objs H" and l2: "lists H2 (Suc (lim_list H)) = []"
    and lim2: "lim_obj H2 = lim_obj H"
    by (auto simp: H2_def H1_def new_list_def)
  have l12: "listed_at L wl H2 = listed_at L wl H"
    by (simp add: listed_at_def o2 fun_eq_iff)
  have d: "distinct f" using assms(1) by (simp add: f_def)
  note R = whitelist_loop_result[OF d, of L wl "Suc (lim_list H)" H2]
  have "lists H' entries' = lists H2 (Suc (lim_list H)) @ filter (listed_at L wl H2) f"
    using R by (simp add: e h)
  also have "\<dots> = f" unfolding l2 l12 f_def by (simp add: filter_filter_same)
  finally show "lists H' entries' = filter (listed_at L wl H) (lists H entries)"
    by (simp add: f_def)
  show "objs H' = (\<lambda>a. if a \<in> set (lists H entries) then explained L wl (objs H a) else objs H a)"
  proof (rule ext)
    fix a
    have r: "objs H' a = (if a \<in> set f then explained L wl (objs H a) else objs H a)"
      using R by (simp add: h o2)
    show "objs H' a = (if a \<in> set (lists H entries) then explained L wl (objs H a) else objs H a)"
    proof (cases "is_listed L (objs H a) wl")
      case None
      then have "explained L wl (objs H a) = objs H a" by (simp add: explained_def)
      then show ?thesis using r by simp
    next
      case (Some km)
      then have "a \<in> set f \<longleftrightarrow> a \<in> set (lists H entries)"
        by (simp add: f_def listed_at_def)
      then show ?thesis using r by simp
    qed
  qed
  show "lim_obj H' = lim_obj H" using R by (simp add: h lim2)
qed

lemma searchlist_get_fields:
  "searchlist_get sl ''title'' = patterns_of (sl_title sl)"
  "searchlist_get sl ''url'' = patterns_of (sl_url sl)"
  by (simp_all add: searchlist_get_def patterns_of_def)

lemma search_patterns_first_match: "search_patterns L ps v = first_match L ps v"
  by (simp add: search_patterns_find first_match_def)

lemma first_match_None:
  "first_match L ps v = None \<longleftrightarrow> (\<forall>p \<in> set ps. re_search L p v = None)"
  using search_patterns_None[of L ps v] by (simp add: search_patterns_first_match)

lemma is_listed_first_match:
  "is_listed L e sl =
     (case first_match L (patterns_of (sl_title sl)) (title e) of
        Some m \<Rightarrow> Some (''title'', m)
      | None \<Rightarrow>
          (case first_match L (patterns_of (sl_url sl)) (long_url e) of
             Some m \<Rightarrow> Some (''url'', m)
           | None \<Rightarrow> None))"
  unfolding is_listed_title_first searchlist_get_fields search_patterns_first_match ..

lemma is_listed_listed: "(is_listed L e sl \<noteq> None) = listed L sl e"
  using is_listed_Some_iff[of L e sl] unfolding searchlist_get_fields listed_def .

lemma is_listed_None_listed: "(is_listed L e sl = None) = (\<not> listed L sl e)"
  using is_listed_listed[of L e sl] by blast

lemma listed_at_listed: "listed_at L wl H = (\<lambda>a. listed L wl (objs H a))"
  unfolding listed_at_def is_listed_listed ..

lemma explained_annotated: "explained L wl e = annotated L wl e"
proof (cases "first_match L (patterns_of (sl_title wl)) (title e)")
  case None
  then show ?thesis
    by (simp add: explained_def annotated_def is_listed_first_match split: option.splits)
next
  case (Some m)
  then show ?thesis
    by (simp add: explained_def annotated_def is_listed_first_match explain_set_def
        explain_title_def)
qed

lemma searchlist_truthy_configured: "searchlist_truthy sl = configured sl"
  by (simp add: searchlist_truthy_def configured_def)

text \<open>
  Claim C6. \<^verbatim>\<open>is_listed\<close> reports the first pattern of the title list that
  \<^verbatim>\<open>re.search\<close> finds in the title (a search, so a match anywhere in the value
  counts) and, only when no title pattern matches, the first pattern of the url list
  found in the \<open>long_url\<close>; it reports a match if and only if some title pattern
  matches the title or some url pattern matches the \<open>long_url\<close>. For a list of
  distinct entry objects, the whitelist stage returns exactly the entries some pattern
  matches, in order. When \<^verbatim>\<open>explain\<close> is true, the stage assigns to the title of every
  entry of the list whose title a title pattern matches, in place, the title with the
  span of the first such match wrapped in \<^verbatim>\<open>*\<close>, and leaves its \<open>long_url\<close> alone;
  every other object, and every object when \<^verbatim>\<open>explain\<close> is not true, is left as it
  was. So the pattern \<^verbatim>\<open>foo\<close>, matching the title \<^verbatim>\<open>hello foo bar\<close> at the span
  (6, 9), yields the title \<^verbatim>\<open>hello *foo* bar\<close>.
\<close>

theorem whitelist_stage_first_match_explain:
  assumes "distinct (lists H entries)"
    and "whitelist_stage L wl entries H = (entries', H')"
  shows "is_listed L e wl =
           (case first_match L (patterns_of (sl_title wl)) (title e) of
              Some m \<Rightarrow> Some (''title'', m)
            | None \<Rightarrow>
                (case first_match L (patterns_of (sl_url wl)) (long_url e) of
                   Some m \<Rightarrow> Some (''url'', m)
                 | None \<Rightarrow> None))
       \<and> (is_listed L e wl \<noteq> None) =
            ((\<exists>p \<in> set (patterns_of (sl_title wl)). re_search L p (title e) \<noteq> None)
             \<or> (\<exists>p \<in> set (patterns_of (sl_url wl)). re_search L p (long_url e) \<noteq> None))
       \<and> lists H' entries' = filter (\<lambda>a. listed L wl (objs H a)) (lists H entries)
       \<and> objs H' =
            (\<lambda>a. if a \<in> set (lists H entries) then annotated L wl (objs H a) else objs H a)
       \<and> (\<forall>a m. a \<in> set (lists H entries) \<and> sl_explain wl = Some True
                 \<and> first_match L (patterns_of (sl_title wl)) (title (objs H a)) = Some m
              \<longrightarrow> title (objs H' a)
                    = take (span0 m) (title (objs H a)) @ ''*''
                      @ drop (span0 m) (take (span1 m) (title (objs H a))) @ ''*''
                      @ drop (span1 m) (title (objs H a))
                \<and> long_url (objs H' a) = long_url (objs H a))
       \<and> (\<forall>a. \<not> (a \<in> set (lists H entries) \<and> sl_explain wl = Some True
                    \<and> (\<exists>p \<in> set (patterns_of (sl_title wl)).
                           re_search L p (title (objs H a)) \<noteq> None))
              \<longrightarrow> objs H' a = objs H a)
       \<and> (\<forall>a m. a \<in> set (lists H entries) \<and> sl_explain wl = Some True
                 \<and> sl_title wl = Some [''foo''] \<and> title (objs H a) = ''hello foo bar''
                 \<and> re_search L ''foo'' ''hello foo bar'' = Some m
                 \<and> span0 m = 6 \<and> span1 m = 9
              \<longrightarrow> a \<in> set (lists H' entries') \<and> title (objs H' a) = ''hello *foo* bar'')"
proof -
  note S = whitelist_stage_result[OF assms]
  have o: "objs H' =
            (\<lambda>a. if a \<in> set (lists H entries) then annotated L wl (objs H a) else objs H a)"
    using S(2) unfolding explained_annotated .
  have c2: "(is_listed L e wl \<noteq> None) =
            ((\<exists>p \<in> set (patterns_of (sl_title wl)). re_search L p (title e) \<noteq> None)
             \<or> (\<exists>p \<in> set (patterns_of (sl_url wl)). re_search L p (long_url e) \<noteq> None))"
    using is_listed_listed[of L e wl] unfolding listed_def .
  have c3: "lists H' entries' = filter (\<lambda>a. listed L wl (objs H a)) (lists H entries)"
    using S(1) unfolding listed_at_listed .
  have c5: "\<forall>a m. a \<in> set (lists H entries) \<and> sl_explain wl = Some True
                 \<and> first_match L (patterns_of (sl_title wl)) (title (objs H a)) = Some m
              \<longrightarrow> title (objs H' a)
                    = take (span0 m) (title (objs H a)) @ ''*''
                      @ drop (span0 m) (take (span1 m) (title (objs H a))) @ ''*''
                      @ drop (span1 m) (title (objs H a))
                \<and> long_url (objs H' a) = long_url (objs H a)"
  proof (intro allI impI)
    fix a m
    assume a: "a \<in> set (lists H entries) \<and> sl_explain wl = Some True
                 \<and> first_match L (patterns_of (sl_title wl)) (title (objs H a)) = Some m"
    then have "objs H' a
        = set_title (take (span0 m) (title (objs H a)) @ ''*''
                      @ drop (span0 m) (take (span1 m) (title (objs H a))) @ ''*''
                      @ drop (span1 m) (title (objs H a))) (objs H a)"
      by (simp add: o annotated_def)
    then show "title (objs H' a)
                    = take (span0 m) (title (objs H a)) @ ''*''
                      @ drop (span0 m) (take (span1 m) (title (objs H a))) @ ''*''
                      @ drop (span1 m) (title (objs H a))
                \<and> long_url (objs H' a) = long_url (objs H a)"
      by (cases "objs H a") simp_all
  qed
  have c6: "\<forall>a. \<not> (a \<in> set (lists H entries) \<and> sl_explain wl = Some True
                    \<and> (\<exists>p \<in> set (patterns_of (sl_title wl)).
                           re_search L p (title (objs H a)) \<noteq> None))
              \<longrightarrow> objs H' a = objs H a"
  proof (intro allI impI)
    fix a
    assume n: "\<not> (a \<in> set (lists H entries) \<and> sl_explain wl = Some True
                    \<and> (\<exists>p \<in> set (patterns_of (sl_title wl)).
                           re_search L p (title (objs H a)) \<noteq> None))"
    have "annotated L wl (objs H a) = objs H a" if "a \<in> set (lists H entries)"
    proof (cases "sl_explain wl = Some True")
      case False
      then show ?thesis by (simp add: annotated_def)
    next
      case True
      with n that have "\<forall>p \<in> set (patterns_of (sl_title wl)).
                           re_search L p (title (objs H a)) = None"
        by blast
      then have "first_match L (patterns_of (sl_title wl)) (title (objs H a)) = None"
        by (simp add: first_match_None)
      then show ?thesis by (simp add: annotated_def)
    qed
    then show "objs H' a = objs H a" by (simp add: o)
  qed
  have c7: "\<forall>a m. a \<in> set (lists H entries) \<and> sl_explain wl = Some True
                 \<and> sl_title wl = Some [''foo''] \<and> title (objs H a) = ''hello foo bar''
                 \<and> re_search L ''foo'' ''hello foo bar'' = Some m
                 \<and> span0 m = 6 \<and> span1 m = 9
              \<longrightarrow> a \<in> set (lists H' entries') \<and> title (objs H' a) = ''hello *foo* bar''"
  proof (intro allI impI)
    fix a m
    assume a: "a \<in> set (lists H entries) \<and> sl_explain wl = Some True
                 \<and> sl_title wl = Some [''foo''] \<and> title (objs H a) = ''hello foo bar''
                 \<and> re_search L ''foo'' ''hello foo bar'' = Some m
                 \<and> span0 m = 6 \<and> span1 m = 9"
    then have fm: "first_match L (patterns_of (sl_title wl)) (title (objs H a)) = Some m"
      by (simp add: first_match_def patterns_of_def)
    with a c5 have "title (objs H' a)
                    = take (span0 m) (title (objs H a)) @ ''*''
                      @ drop (span0 m) (take (span1 m) (title (objs H a))) @ ''*''
                      @ drop (span1 m) (title (objs H a))"
      by blast
    then have t: "title (objs H' a) = ''hello *foo* bar''" using a by simp
    have "listed L wl (objs H a)" using a by (simp add: listed_def patterns_of_def)
    then have "a \<in> set (lists H' entries')" using a by (simp add: c3)
    then show "a \<in> set (lists H' entries') \<and> title (objs H' a) = ''hello *foo* bar''"
      using t by simp
  qed
  show ?thesis
    using is_listed_first_match[of L e wl] c2 c3 o c5 c6 c7 by blast
qed

theorem whitelist_stage_first_match_explain_witness:
  "distinct (lists ex_heap 0)
   \<and> lists (snd (whitelist_stage ex_lib ex_whitelist 0 ex_heap))
        (fst (whitelist_stage ex_lib ex_whitelist 0 ex_heap)) = [0]
   \<and> title (objs (snd (whitelist_stage ex_lib ex_whitelist 0 ex_heap)) 0) = ''hello *foo* bar''"
proof -
  have d: "distinct (lists ex_heap 0)" by (simp add: ex_heap_def)
  have w: "whitelist_stage ex_lib ex_whitelist 0 ex_heap
            = (fst (whitelist_stage ex_lib ex_whitelist 0 ex_heap),
               snd (whitelist_stage ex_lib ex_whitelist 0 ex_heap))"
    by simp
  note T = whitelist_stage_first_match_explain[OF d w]
  have l: "listed ex_lib ex_whitelist (objs ex_heap 0)"
    by (simp add: listed_def patterns_of_def ex_lib_def ex_heap_def ex_whitelist_def)
  have a: "lists (snd (whitelist_stage ex_lib ex_whitelist 0 ex_heap))
        (fst (whitelist_stage ex_lib ex_whitelist 0 ex_heap))
        = filter (\<lambda>a. listed ex_lib ex_whitelist (objs ex_heap a)) (lists ex_heap 0)"
    using T by blast
  have a': "lists (snd (whitelist_stage ex_lib ex_whitelist 0 ex_heap))
        (fst (whitelist_stage ex_lib ex_whitelist 0 ex_heap)) = [0]"
    unfolding a using l by (simp add: ex_heap_def)
  have h: "(0::nat) \<in> set (lists ex_heap 0) \<and> sl_explain ex_whitelist = Some True
                 \<and> sl_title ex_whitelist = Some [''foo'']
                 \<and> title (objs ex_heap 0) = ''hello foo bar''
                 \<and> re_search ex_lib ''foo'' ''hello foo bar''
                     = Some \<lparr>span0 = 6, span1 = 9, groupdict = Map.empty\<rparr>
                 \<and> span0 \<lparr>span0 = 6, span1 = 9, groupdict = Map.empty :: string \<rightharpoonup> string option\<rparr> = 6
                 \<and> span1 \<lparr>span0 = 6, span1 = 9, groupdict = Map.empty :: string \<rightharpoonup> string option\<rparr> = 9"
    by (simp add: ex_heap_def ex_whitelist_def ex_lib_def)
  have b: "title (objs (snd (whitelist_stage ex_lib ex_whitelist 0 ex_heap)) 0) = ''hello *foo* bar''"
    using T h by blast
  show ?thesis using d a' b by blast
qed

section \<open>The fetch cache and the feeds that read it\<close>

text \<open>
  Claim C3, evaluated on the code. From the empty world, a cache read for \<open>ex_url\<close>
  fetches, parses and caches the list of one entry, titled \<^verbatim>\<open>hello foo bar\<close> with the
  \<open>long_url\<close> \<^verbatim>\<open>http://x.test/1\<close>. When instead a feed configured with
  \<^verbatim>\<open>https: true\<close> and a whitelist with \<^verbatim>\<open>explain: true\<close> runs \<^verbatim>\<open>_entries\<close> first,
  the next cache read for the URL (no time has passed, the entry expires at 3600, no
  second request is made, and the list returned is the cached list at address 0)
  yields the entry titled \<^verbatim>\<open>hello *foo* bar\<close> with the \<open>long_url\<close>
  \<^verbatim>\<open>https://x.test/1\<close>: the feed's stages assigned to the fields of the cached
  object.
\<close>

theorem cache_read_after_feed_example:
  "(let (r, W) = url_entries ex_config ex_lib ex_transport ex_url empty_world
    in (r, case r of Inr l \<Rightarrow> load (heap W) l | Inl _ \<Rightarrow> []))
   = (Inr 0, [FeedEntry ''hello foo bar'' ''http://x.test/1''])
   \<and> (let (r, W) = Feed_entries ex_config ex_lib ex_transport ex_feed_explain ex_url empty_world;
        (r', W') = url_entries ex_config ex_lib ex_transport ex_url W
    in (r', case r' of Inr l \<Rightarrow> load (heap W') l | Inl _ \<Rightarrow> [], events W', clock W',
        map_option fst (cache W' ex_url)))
   = (Inr 0, [FeedEntry ''hello *foo* bar'' ''https://x.test/1''],
      [(ex_url, Request 1)], 0, Some 3600)"
  by code_simp

section \<open>The property post\_url\<close>

text \<open>
  Claim C10. \<^verbatim>\<open>post_url\<close> of a \<^verbatim>\<open>FeedEntry\<close> is its \<open>long_url\<close>, \<^verbatim>\<open>post_url\<close> of a
  \<^verbatim>\<open>ShortenedFeedEntry\<close> is its \<open>short_url\<close>, and reading the property of the object
  at any address leaves the store, hence the entry, as it was.
\<close>

theorem post_url_reads_field:
  "post_url (FeedEntry t u) = long_url (FeedEntry t u)
   \<and> post_url (ShortenedFeedEntry t u s) = short_url (ShortenedFeedEntry t u s)
   \<and> fst (read_post_url a H) = post_url (objs H a)
   \<and> snd (read_post_url a H) = H"
  by (simp add: read_post_url_def)

section \<open>Properties of HTTPS enforcement and substitution\<close>

lemma enforce_https_http: "enforce_https (''http://'' @ rest) = ''https://'' @ rest"
  by (simp add: enforce_https_def)

lemma enforce_https_other: "\<not> prefix ''http://'' u \<Longrightarrow> enforce_https u = u"
  by (simp add: enforce_https_def)

lemma enforce_https_not_http: "\<not> prefix ''http://'' (enforce_https u)"
proof (cases "prefix ''http://'' u")
  case True
  then obtain rest where u: "u = ''http://'' @ rest" by (auto simp: prefix_def)
  have "enforce_https u = ''https://'' @ rest" unfolding u by (rule enforce_https_http)
  then show ?thesis by simp
next
  case False
  then show ?thesis by (simp add: enforce_https_other)
qed

lemma enforce_https_idem: "enforce_https (enforce_https u) = enforce_https u"
  using enforce_https_not_http[of u] by (rule enforce_https_other)

lemma long_url_set_long_url: "long_url (set_long_url u e) = u"
  by (cases e) simp_all

lemma set_long_url_twice: "set_long_url u (set_long_url u' e) = set_long_url u e"
  by (cases e) simp_all

lemma set_long_url_same: "set_long_url (long_url e) e = e"
  by (cases e) simp_all

lemma long_url_set_title: "long_url (set_title t e) = long_url e"
  by (cases e) simp_all

lemma https_entry_idem: "https_entry (https_entry e) = https_entry e"
  by (simp add: https_entry_def long_url_set_long_url set_long_url_twice enforce_https_idem)

lemma long_url_https_entry: "long_url (https_entry e) = enforce_https (long_url e)"
  by (simp add: https_entry_def long_url_set_long_url)

lemma https_loop_step:
  "https_loop (a # as) H = https_loop as (H\<lparr>objs := (objs H)(a := https_entry (objs H a))\<rparr>)"
proof (cases "prefix ''http://'' (long_url (objs H a))")
  case True
  then show ?thesis by (simp add: https_entry_def enforce_https_def)
next
  case False
  then have "https_entry (objs H a) = objs H a"
    by (simp add: https_entry_def enforce_https_def set_long_url_same)
  then show ?thesis using False by simp
qed

lemma https_loop_result:
  "objs (https_loop as H) = (\<lambda>a. if a \<in> set as then https_entry (objs H a) else objs H a)
   \<and> lists (https_loop as H) = lists H
   \<and> lim_obj (https_loop as H) = lim_obj H
   \<and> lim_list (https_loop as H) = lim_list H"
proof (induction as arbitrary: H)
  case Nil
  then show ?case by simp
next
  case (Cons a as)
  define H1 where "H1 = H\<lparr>objs := (objs H)(a := https_entry (objs H a))\<rparr>"
  have step: "https_loop (a # as) H = https_loop as H1"
    unfolding H1_def by (rule https_loop_step)
  note IH = Cons.IH[of H1]
  have "objs (https_loop as H1) =
          (\<lambda>b. if b \<in> set (a # as) then https_entry (objs H b) else objs H b)"
  proof (rule ext)
    fix b
    have r: "objs (https_loop as H1) b = (if b \<in> set as then https_entry (objs H1 b) else objs H1 b)"
      using IH by simp
    show "objs (https_loop as H1) b =
          (if b \<in> set (a # as) then https_entry (objs H b) else objs H b)"
    proof (cases "b = a")
      case True
      then show ?thesis using r by (simp add: H1_def https_entry_idem)
    next
      case False
      then show ?thesis using r by (simp add: H1_def)
    qed
  qed
  moreover have "lists (https_loop as H1) = lists H" "lim_obj (https_loop as H1) = lim_obj H"
    "lim_list (https_loop as H1) = lim_list H"
    using IH by (simp_all add: H1_def)
  ultimately show ?case unfolding step by blast
qed

lemma sub_loop_result:
  assumes "list_all (\<lambda>a. a < lim_obj H) as"
    and "sub_loop L sub as H = (as', H')"
  shows "map (objs H') as' = map (\<lambda>a. sub_entry L sub (objs H a)) as
       \<and> (\<forall>b < lim_obj H. objs H' b = objs H b)
       \<and> lim_obj H \<le> lim_obj H'
       \<and> lists H' = lists H \<and> lim_list H' = lim_list H"
  using assms
proof (induction as arbitrary: H as' H')
  case Nil
  then show ?case by simp
next
  case (Cons a as)
  define H1 where "H1 = H\<lparr>objs := (objs H)(lim_obj H := sub_entry L sub (objs H a)),
                          lim_obj := Suc (lim_obj H)\<rparr>"
  obtain rest H2 where r: "sub_loop L sub as H1 = (rest, H2)" by (cases "sub_loop L sub as H1")
  have e: "as' = lim_obj H # rest" "H' = H2"
    using Cons.prems(2) r
    by (simp_all add: new_entry_def sub_entry_def H1_def Let_def)
  have lt: "a < lim_obj H" and all: "list_all (\<lambda>a. a < lim_obj H) as"
    using Cons.prems(1) by simp_all
  have all1: "list_all (\<lambda>a. a < lim_obj H1) as"
    using all by (simp add: H1_def list_all_iff less_Suc_eq)
  note IH = Cons.IH[OF all1 r]
  have frame: "\<forall>b < lim_obj H1. objs H2 b = objs H1 b" using IH by blast
  have new: "objs H2 (lim_obj H) = sub_entry L sub (objs H a)"
    using frame by (simp add: H1_def)
  have old: "\<forall>b < lim_obj H. objs H2 b = objs H b"
    using frame by (simp add: H1_def)
  have "map (objs H2) rest = map (\<lambda>a. sub_entry L sub (objs H1 a)) as" using IH by blast
  also have "\<dots> = map (\<lambda>a. sub_entry L sub (objs H a)) as"
    using all by (intro map_cong) (auto simp: H1_def list_all_iff)
  finally have m: "map (objs H2) rest = map (\<lambda>a. sub_entry L sub (objs H a)) as" .
  have lims: "lim_obj H \<le> lim_obj H2" "lists H2 = lists H" "lim_list H2 = lim_list H"
    using IH by (simp_all add: H1_def)
  show ?case unfolding e using m new old lims by simp
qed

lemma whitelist_loop_frame:
  "set (lists (whitelist_loop L wl out as H) out) \<subseteq> set (lists H out) \<union> set as
   \<and> (\<forall>a. long_url (objs (whitelist_loop L wl out as H) a) = long_url (objs H a))
   \<and> lim_obj (whitelist_loop L wl out as H) = lim_obj H"
proof (induction as arbitrary: H)
  case Nil
  then show ?case by simp
next
  case (Cons a as)
  show ?case
  proof (cases "is_listed L (objs H a) wl")
    case None
    then show ?thesis using Cons.IH[of H] by auto
  next
    case (Some km)
    obtain key m where km: "km = (key, m)" by (cases km)
    define H1 where "H1 = (if explain_set wl \<and> key = ''title''
                     then H\<lparr>objs := (objs H)(a := set_title (explain_title m (title (objs H a))) (objs H a))\<rparr>
                     else H)"
    define H2 where "H2 = H1\<lparr>lists := (lists H1)(out := lists H1 out @ [a])\<rparr>"
    have step: "whitelist_loop L wl out (a # as) H = whitelist_loop L wl out as H2"
      by (simp add: Some km H1_def H2_def Let_def)
    have u: "\<forall>b. long_url (objs H2 b) = long_url (objs H b)"
      by (simp add: H2_def H1_def long_url_set_title)
    have l: "lists H2 out = lists H out @ [a]" by (simp add: H2_def H1_def)
    have lim: "lim_obj H2 = lim_obj H" by (simp add: H2_def H1_def)
    note IH = Cons.IH[of H2]
    have "set (lists (whitelist_loop L wl out as H2) out) \<subseteq> set (lists H out) \<union> set (a # as)"
      using IH l by auto
    moreover have "\<forall>b. long_url (objs (whitelist_loop L wl out as H2) b) = long_url (objs H b)"
      using IH u by simp
    moreover have "lim_obj (whitelist_loop L wl out as H2) = lim_obj H"
      using IH lim by simp
    ultimately show ?thesis unfolding step by blast
  qed
qed

lemma whitelist_stage_frame:
  assumes "whitelist_stage L wl entries H = (entries', H')"
  shows "set (lists H' entries') \<subseteq> set (lists H entries)
       \<and> (\<forall>a. long_url (objs H' a) = long_url (objs H a))
       \<and> lim_obj H' = lim_obj H"
proof -
  define f where "f = filter (\<lambda>a. is_listed L (objs H a) wl \<noteq> None) (lists H entries)"
  define H1 where "H1 = snd (new_list f H)"
  define H2 where "H2 = snd (new_list [] H1)"
  have "whitelist_stage L wl entries H
        = (Suc (lim_list H), whitelist_loop L wl (Suc (lim_list H)) f H2)"
    unfolding whitelist_stage_def f_def[symmetric]
    by (simp add: new_list_def H1_def H2_def Let_def)
  with assms have e: "entries' = Suc (lim_list H)"
    and h: "H' = whitelist_loop L wl (Suc (lim_list H)) f H2"
    by auto
  have o2: "objs H2 = objs H" and l2: "lists H2 (Suc (lim_list H)) = []"
    and lim2: "lim_obj H2 = lim_obj H"
    by (auto simp: H2_def H1_def new_list_def)
  note R = whitelist_loop_frame[of L wl "Suc (lim_list H)" f H2]
  have "set (lists H' entries') \<subseteq> set f" using R by (simp add: e h l2)
  then have "set (lists H' entries') \<subseteq> set (lists H entries)" by (auto simp: f_def)
  moreover have "\<forall>a. long_url (objs H' a) = long_url (objs H a)" using R by (simp add: h o2)
  moreover have "lim_obj H' = lim_obj H" using R by (simp add: h lim2)
  ultimately show ?thesis by blast
qed

lemma sub_stage_result:
  assumes "list_all (\<lambda>a. a < lim_obj H) (lists H entries)"
    and "sub_stage L sub entries H = (entries', H')"
  shows "map (objs H') (lists H' entries') = map (\<lambda>a. sub_entry L sub (objs H a)) (lists H entries)"
proof -
  obtain as' H1 where r: "sub_loop L sub (lists H entries) H = (as', H1)"
    by (cases "sub_loop L sub (lists H entries) H")
  have e: "entries' = lim_list H1" "H' = H1\<lparr>lists := (lists H1)(lim_list H1 := as'), lim_list := Suc (lim_list H1)\<rparr>"
    using assms(2) r by (auto simp: sub_stage_def new_list_def)
  note R = sub_loop_result[OF assms(1) r]
  have "map (objs H1) as' = map (\<lambda>a. sub_entry L sub (objs H a)) (lists H entries)"
    using R by blast
  then show ?thesis by (simp add: e)
qed

lemma long_url_sub_entry:
  "sub_url sub = Some rule \<Longrightarrow>
   long_url (sub_entry L sub e) = re_sub L (pattern rule) (repl rule) (long_url e)"
  by (simp add: sub_entry_def re_sub_rule_def)

lemma filtered_entries_result:
  assumes "distinct (lists H entries)"
    and "(if searchlist_truthy (cfg_whitelist cfg)
          then whitelist_stage L (cfg_whitelist cfg) entries H else (entries, H)) = (e1, H1)"
    and "(if searchlist_truthy (cfg_blacklist cfg)
          then blacklist_stage L (cfg_blacklist cfg) e1 H1 else (e1, H1)) = (e2, H2)"
  shows "lists H2 e2 = filter (\<lambda>a. passes_filters L cfg (objs H a)) (lists H entries)"
    and "\<forall>a. long_url (objs H2 a) = long_url (objs H a)"
    and "lim_obj H2 = lim_obj H"
proof -
  let ?wl = "cfg_whitelist cfg" and ?bl = "cfg_blacklist cfg"
  let ?after = "\<lambda>e. if configured ?wl then annotated L ?wl e else e"
  have l1: "lists H1 e1 = filter (\<lambda>a. \<not> configured ?wl \<or> listed L ?wl (objs H a)) (lists H entries)"
    and o1: "\<forall>a \<in> set (lists H entries). objs H1 a = ?after (objs H a)"
    and u1: "\<forall>a. long_url (objs H1 a) = long_url (objs H a)"
    and lim1: "lim_obj H1 = lim_obj H"
  proof -
    show "lists H1 e1 = filter (\<lambda>a. \<not> configured ?wl \<or> listed L ?wl (objs H a)) (lists H entries)"
    proof (cases "configured ?wl")
      case True
      then have w: "whitelist_stage L ?wl entries H = (e1, H1)"
        using assms(2) by (simp add: searchlist_truthy_configured)
      show ?thesis
        using whitelist_stage_result(1)[OF assms(1) w] True by (simp add: listed_at_listed)
    next
      case False
      then show ?thesis using assms(2) by (simp add: searchlist_truthy_configured)
    qed
    show "\<forall>a \<in> set (lists H entries). objs H1 a = ?after (objs H a)"
    proof (cases "configured ?wl")
      case True
      then have w: "whitelist_stage L ?wl entries H = (e1, H1)"
        using assms(2) by (simp add: searchlist_truthy_configured)
      show ?thesis
        using whitelist_stage_result(2)[OF assms(1) w] True by (simp add: explained_annotated)
    next
      case False
      then show ?thesis using assms(2) by (simp add: searchlist_truthy_configured)
    qed
    show "\<forall>a. long_url (objs H1 a) = long_url (objs H a)"
    proof (cases "configured ?wl")
      case True
      then have w: "whitelist_stage L ?wl entries H = (e1, H1)"
        using assms(2) by (simp add: searchlist_truthy_configured)
      show ?thesis using whitelist_stage_frame[OF w] by blast
    next
      case False
      then show ?thesis using assms(2) by (simp add: searchlist_truthy_configured)
    qed
    show "lim_obj H1 = lim_obj H"
    proof (cases "configured ?wl")
      case True
      then have w: "whitelist_stage L ?wl entries H = (e1, H1)"
        using assms(2) by (simp add: searchlist_truthy_configured)
      show ?thesis using whitelist_stage_frame[OF w] by blast
    next
      case False
      then show ?thesis using assms(2) by (simp add: searchlist_truthy_configured)
    qed
  qed
  have l2: "lists H2 e2 = filter (\<lambda>a. \<not> configured ?bl \<or> \<not> listed L ?bl (objs H1 a)) (lists H1 e1)"
    and o2: "objs H2 = objs H1" and lim2: "lim_obj H2 = lim_obj H1"
  proof -
    show "lists H2 e2 = filter (\<lambda>a. \<not> configured ?bl \<or> \<not> listed L ?bl (objs H1 a)) (lists H1 e1)"
    proof (cases "configured ?bl")
      case True
      then have b: "blacklist_stage L ?bl e1 H1 = (e2, H2)"
        using assms(3) by (simp add: searchlist_truthy_configured)
      have "(\<lambda>a. is_listed L (objs H1 a) ?bl = None) = (\<lambda>a. \<not> listed L ?bl (objs H1 a))"
        unfolding is_listed_None_listed ..
      then have "blacklist_stage L ?bl e1 H1
                  = new_list (filter (\<lambda>a. \<not> listed L ?bl (objs H1 a)) (lists H1 e1)) H1"
        unfolding blacklist_stage_def by (rule arg_cong2[where f = "\<lambda>p h. new_list (filter p (lists H1 e1)) h", OF _ refl])
      then show ?thesis using b True by (auto simp: new_list_def)
    next
      case False
      then show ?thesis using assms(3) by (simp add: searchlist_truthy_configured)
    qed
    show "objs H2 = objs H1"
      using assms(3) by (auto simp: blacklist_stage_def new_list_def split: if_splits)
    show "lim_obj H2 = lim_obj H1"
      using assms(3) by (auto simp: blacklist_stage_def new_list_def split: if_splits)
  qed
  have "lists H2 e2
        = filter (\<lambda>a. (\<not> configured ?wl \<or> listed L ?wl (objs H a))
                      \<and> (\<not> configured ?bl \<or> \<not> listed L ?bl (objs H1 a))) (lists H entries)"
    unfolding l2 l1 by (simp add: conj_commute)
  also have "\<dots> = filter (\<lambda>a. passes_filters L cfg (objs H a)) (lists H entries)"
    by (rule filter_cong) (use o1 in \<open>auto simp: passes_filters_def\<close>)
  finally show "lists H2 e2 = filter (\<lambda>a. passes_filters L cfg (objs H a)) (lists H entries)" .
  show "\<forall>a. long_url (objs H2 a) = long_url (objs H a)" using u1 o2 by simp
  show "lim_obj H2 = lim_obj H" using lim1 lim2 by simp
qed

text \<open>
  Claim C5, as stated, fails on an entry whose \<open>long_url\<close> does not begin with
  \<^verbatim>\<open>http://\<close>: HTTPS enforcement leaves it alone, so the substitution's input need
  not begin with \<^verbatim>\<open>https://\<close>. Here the feed has \<^verbatim>\<open>https: true\<close> and a url rule, the
  entry's \<open>long_url\<close> is \<^verbatim>\<open>ftp://x.test/1\<close>, and the rule's pattern does not match,
  so the \<open>long_url\<close> of the entry the substitution builds is the URL it received.
\<close>

theorem substitution_input_not_https_counterexample:
  "cfg_https ex_feed_sub = Some True
   \<and> sub_url (cfg_sub ex_feed_sub) = Some ex_rule
   \<and> load (snd (substituted_entries ex_lib ex_feed_sub 0 ex_heap_ftp))
        (fst (substituted_entries ex_lib ex_feed_sub 0 ex_heap_ftp))
      = [FeedEntry ''Title One'' ''ftp://x.test/1'']
   \<and> re_sub ex_lib (pattern ex_rule) (repl ex_rule) ''ftp://x.test/1'' = ''ftp://x.test/1''
   \<and> \<not> prefix ''https://'' ''ftp://x.test/1''"
  by code_simp

text \<open>
  Claim C5, amended. Let a feed have \<^verbatim>\<open>https: true\<close> and a \<^verbatim>\<open>sub\<close> rule for the url,
  and let \<^verbatim>\<open>_entries\<close> run its stages up to the substitution on a list of distinct,
  allocated entries. Then the entries the substitution builds are, position by
  position, those of the input list that pass the filters (all of them when neither a
  whitelist nor a blacklist is configured), and the \<open>long_url\<close> of each is
  \<^verbatim>\<open>re.sub\<close> of the rule applied to \<open>enforce_https\<close> of that entry's own
  \<open>long_url\<close>: the substitution reads the URL that HTTPS enforcement has left. That
  URL never begins with \<^verbatim>\<open>http://\<close>; it is \<^verbatim>\<open>https://\<close> followed by the unchanged
  rest when the entry's \<open>long_url\<close> was \<^verbatim>\<open>http://\<close> followed by that rest (only the
  first occurrence is rewritten), and it is the entry's \<open>long_url\<close> itself when that
  did not begin with \<^verbatim>\<open>http://\<close>.
\<close>

theorem substitution_reads_https_url:
  assumes "list_all (\<lambda>a. a < lim_obj H) (lists H entries)"
    and "distinct (lists H entries)"
    and "cfg_https cfg = Some True"
    and "sub_url (cfg_sub cfg) = Some rule"
    and "substituted_entries L cfg entries H = (entries', H')"
  shows "map (\<lambda>a'. long_url (objs H' a')) (lists H' entries')
           = map (\<lambda>a. re_sub L (pattern rule) (repl rule) (enforce_https (long_url (objs H a))))
               (filter (\<lambda>a. passes_filters L cfg (objs H a)) (lists H entries))
       \<and> (\<not> configured (cfg_whitelist cfg) \<and> \<not> configured (cfg_blacklist cfg) \<longrightarrow>
            map (\<lambda>a'. long_url (objs H' a')) (lists H' entries')
              = map (\<lambda>a. re_sub L (pattern rule) (repl rule) (enforce_https (long_url (objs H a))))
                  (lists H entries))
       \<and> \<not> prefix ''http://'' (enforce_https u)
       \<and> enforce_https (''http://'' @ rest) = ''https://'' @ rest
       \<and> (\<not> prefix ''http://'' u \<longrightarrow> enforce_https u = u)"
proof -
  obtain e1 H1 where s1: "(if searchlist_truthy (cfg_whitelist cfg)
             then whitelist_stage L (cfg_whitelist cfg) entries H else (entries, H)) = (e1, H1)"
    by (cases "if searchlist_truthy (cfg_whitelist cfg)
             then whitelist_stage L (cfg_whitelist cfg) entries H else (entries, H)")
  obtain e2 H2 where s2: "(if searchlist_truthy (cfg_blacklist cfg)
             then blacklist_stage L (cfg_blacklist cfg) e1 H1 else (e1, H1)) = (e2, H2)"
    by (cases "if searchlist_truthy (cfg_blacklist cfg)
             then blacklist_stage L (cfg_blacklist cfg) e1 H1 else (e1, H1)")
  define H3 where "H3 = https_loop (lists H2 e2) H2"
  define kept where "kept = filter (\<lambda>a. passes_filters L cfg (objs H a)) (lists H entries)"
  have st: "sub_truthy (cfg_sub cfg)" using assms(4) by (simp add: sub_truthy_def)
  have s4: "sub_stage L (cfg_sub cfg) e2 H3 = (entries', H')"
    using assms(5) s1 s2
    by (simp add: substituted_entries_def assms(3) st H3_def Let_def)
  note F = filtered_entries_result[OF assms(2) s1 s2]
  have l2: "lists H2 e2 = kept" using F(1) by (simp add: kept_def)
  note R3 = https_loop_result[of "lists H2 e2" H2]
  have l3: "lists H3 e2 = kept" and lim3: "lim_obj H3 = lim_obj H"
    using R3 F(3) l2 by (simp_all add: H3_def)
  have u3: "\<And>a. a \<in> set kept
              \<Longrightarrow> long_url (objs H3 a) = enforce_https (long_url (objs H a))"
  proof -
    fix a assume a: "a \<in> set kept"
    then have "objs H3 a = https_entry (objs H2 a)" using R3 by (simp add: H3_def l2)
    then show "long_url (objs H3 a) = enforce_https (long_url (objs H a))"
      using F(2) by (simp add: long_url_https_entry)
  qed
  have wf3: "list_all (\<lambda>a. a < lim_obj H3) (lists H3 e2)"
    using assms(1) by (auto simp: list_all_iff lim3 l3 kept_def)
  note R4 = sub_stage_result[OF wf3 s4]
  have "map (\<lambda>a'. long_url (objs H' a')) (lists H' entries')
          = map long_url (map (objs H') (lists H' entries'))"
    by simp
  also have "\<dots> = map long_url (map (\<lambda>a. sub_entry L (cfg_sub cfg) (objs H3 a)) kept)"
    by (simp only: R4 l3)
  also have "\<dots> = map (\<lambda>a. re_sub L (pattern rule) (repl rule) (long_url (objs H3 a))) kept"
    by (simp add: long_url_sub_entry[OF assms(4)])
  also have "\<dots> = map (\<lambda>a. re_sub L (pattern rule) (repl rule)
                               (enforce_https (long_url (objs H a)))) kept"
    by (rule map_cong) (simp_all add: u3)
  finally have main: "map (\<lambda>a'. long_url (objs H' a')) (lists H' entries')
           = map (\<lambda>a. re_sub L (pattern rule) (repl rule) (enforce_https (long_url (objs H a))))
               (filter (\<lambda>a. passes_filters L cfg (objs H a)) (lists H entries))"
    by (simp add: kept_def)
  have nof: "\<not> configured (cfg_whitelist cfg) \<and> \<not> configured (cfg_blacklist cfg) \<longrightarrow>
            map (\<lambda>a'. long_url (objs H' a')) (lists H' entries')
              = map (\<lambda>a. re_sub L (pattern rule) (repl rule) (enforce_https (long_url (objs H a))))
                  (lists H entries)"
    using main by (simp add: passes_filters_def)
  show ?thesis
    using main nof enforce_https_not_http[of u] enforce_https_http[of rest]
      enforce_https_other[of u]
    by blast
qed

theorem substitution_reads_https_url_witness:
  "list_all (\<lambda>a. a < lim_obj ex_heap) (lists ex_heap 0)
   \<and> distinct (lists ex_heap 0)
   \<and> cfg_https ex_feed_sub = Some True
   \<and> sub_url (cfg_sub ex_feed_sub) = Some ex_rule
   \<and> map (\<lambda>a. long_url (objs (snd (substituted_entries ex_lib ex_feed_sub 0 ex_heap)) a))
        (lists (snd (substituted_entries ex_lib ex_feed_sub 0 ex_heap))
           (fst (substituted_entries ex_lib ex_feed_sub 0 ex_heap)))
      = [''https://x.test/1'']"
proof -
  define e' where "e' = fst (substituted_entries ex_lib ex_feed_sub 0 ex_heap)"
  define H' where "H' = snd (substituted_entries ex_lib ex_feed_sub 0 ex_heap)"
  have h1: "list_all (\<lambda>a. a < lim_obj ex_heap) (lists ex_heap 0)" by (simp add: ex_heap_def)
  have h2: "distinct (lists ex_heap 0)" by (simp add: ex_heap_def)
  have h3: "cfg_https ex_feed_sub = Some True" by (simp add: ex_feed_sub_def ex_feed_https_def)
  have h4: "sub_url (cfg_sub ex_feed_sub) = Some ex_rule" by (simp add: ex_feed_sub_def)
  have h5: "substituted_entries ex_lib ex_feed_sub 0 ex_heap = (e', H')"
    by (simp add: e'_def H'_def)
  have nc: "\<not> configured (cfg_whitelist ex_feed_sub) \<and> \<not> configured (cfg_blacklist ex_feed_sub)"
    by (simp add: configured_def ex_feed_sub_def ex_feed_https_def no_searchlist_def)
  have "map (\<lambda>a'. long_url (objs H' a')) (lists H' e')
          = map (\<lambda>a. re_sub ex_lib (pattern ex_rule) (repl ex_rule)
                        (enforce_https (long_url (objs ex_heap a)))) (lists ex_heap 0)"
    using substitution_reads_https_url[OF h1 h2 h3 h4 h5] nc by blast
  also have "\<dots> = [enforce_https ''http://x.test/1'']"
    by (simp add: ex_lib_def ex_heap_def)
  also have "\<dots> = [''https://x.test/1'']" by (simp add: enforce_https_def)
  finally show ?thesis using h1 h2 h3 h4 unfolding e'_def H'_def by blast
qed

end
